theory Spec2Isabelle
  imports Main
begin

section \<open>Data model (types.ts)\<close>

text \<open>
  A shallow embedding of \<^verbatim>\<open>src/utils/batchProcessor.ts\<close> (the two drivers
  \<^verbatim>\<open>processBatches\<close> and \<^verbatim>\<open>processPaginatedBatches\<close>) and of the
  interfaces of \<^verbatim>\<open>types.ts\<close> they use.

  Numbers that the drivers count with (counters, page numbers) are integers; sizes
  (\<^verbatim>\<open>batchSize\<close>, \<^verbatim>\<open>concurrencyLimit\<close>, \<^verbatim>\<open>stateUpdateInterval\<close>) are
  natural numbers. The two numbers that the array driver computes by a division by
  \<^verbatim>\<open>batchSize\<close> can be \<^verbatim>\<open>NaN\<close> or \<^verbatim>\<open>Infinity\<close> when \<^verbatim>\<open>batchSize\<close> is 0, so they
  get a type of their own.
\<close>

datatype jsnum = Fin int | PosInfinity | NaN

text \<open>\<^verbatim>\<open>Math.ceil(a / b)\<close> and \<^verbatim>\<open>Math.floor(a / b) + 1\<close> on non-negative integers.\<close>

definition math_ceil_div :: "nat \<Rightarrow> nat \<Rightarrow> jsnum" where
  "math_ceil_div a b =
     (if b = 0 then (if a = 0 then NaN else PosInfinity)
      else Fin (int ((a + b - 1) div b)))"

definition math_floor_div_plus1 :: "nat \<Rightarrow> nat \<Rightarrow> jsnum" where
  "math_floor_div_plus1 a b =
     (if b = 0 then (if a = 0 then NaN else PosInfinity)
      else Fin (int (a div b) + 1))"

text \<open>
  The interface \<^verbatim>\<open>State\<close>: seven optional reserved fields and an index signature
  \<^verbatim>\<open>[key: string]: any\<close>, here the map \<open>extra\<close> over a type \<open>'x\<close> of caller values.
  An object spread with overrides, \<^verbatim>\<open>{ ...s, totalProcessed, lastUpdated: t }\<close>, is a
  record update.
\<close>

record 'x State =
  totalProcessed :: "int option"
  totalFailed :: "int option"
  lastUpdated :: "string option"
  startTime :: "int option"
  startedAt :: "string option"
  currentPage :: "int option"
  totalPages :: "int option"
  extra :: "string \<Rightarrow> 'x option"

text \<open>The object \<^verbatim>\<open>{}\<close>, the default of \<^verbatim>\<open>initialState\<close>.\<close>

definition empty_State :: "'x State" where
  "empty_State =
     \<lparr>totalProcessed = None, totalFailed = None, lastUpdated = None, startTime = None,
      startedAt = None, currentPage = None, totalPages = None, extra = (\<lambda>k. None)\<rparr>"

text \<open>
  \<^verbatim>\<open>v || d\<close> on an optional number: \<^verbatim>\<open>undefined\<close> and \<^verbatim>\<open>0\<close> are falsy.
\<close>

definition or_default :: "int option \<Rightarrow> int \<Rightarrow> int" where
  "or_default v d = (case v of None \<Rightarrow> d | Some n \<Rightarrow> if n = 0 then d else n)"

record 'x BatchResult =
  processed :: int
  failed :: int
  state :: "'x State"

text \<open>The interface \<^verbatim>\<open>PageData\<close> (its index signature is not read by the driver).\<close>

record 'a PageData =
  pd_items :: "'a list option"
  pd_results :: "'a list option"
  pd_totalPages :: "int option"

subsection \<open>Thrown values\<close>

text \<open>
  What a \<^verbatim>\<open>catch (error)\<close> can receive: an instance of \<^verbatim>\<open>Error\<close> (with its message)
  or another value. Of the other values the model has the strings, the integers that
  \<^verbatim>\<open>String\<close> prints in decimal digits (those of magnitude below \<open>10\<^sup>2\<^sup>1\<close>), the booleans,
  \<^verbatim>\<open>undefined\<close>, \<^verbatim>\<open>null\<close> and a plain object. \<^verbatim>\<open>String(value)\<close> returns a string for each
  of them. A value whose conversion throws (an object without prototype, an object whose
  \<^verbatim>\<open>toString\<close> throws) is not a value of this type: with such a value
  \<^verbatim>\<open>new Error(String(error))\<close> throws inside the \<^verbatim>\<open>catch\<close> block, before \<^verbatim>\<open>onItemError\<close>
  is called, and the task is rejected. Everything below is about rejections and
  exceptions that carry a value of this type.
\<close>

datatype thrown =
    JError string
  | JString string
  | JNumber int
  | JBoolean bool
  | JUndefined
  | JNull
  | JObject

definition digit :: "nat \<Rightarrow> char" where
  "digit d = ''0123456789'' ! (d mod 10)"

function string_of_nat :: "nat \<Rightarrow> string" where
  "string_of_nat n =
     (if n < 10 then [digit n] else string_of_nat (n div 10) @ [digit (n mod 10)])"
  by pat_completeness auto
termination
  by (relation "measure id") auto

declare string_of_nat.simps [simp del]

definition string_of_int :: "int \<Rightarrow> string" where
  "string_of_int i = (if i < 0 then CHR ''-'' # string_of_nat (nat (- i)) else string_of_nat (nat i))"

fun js_String :: "thrown \<Rightarrow> string" where
  "js_String (JError m) = ''Error: '' @ m"
| "js_String (JString s) = s"
| "js_String (JNumber n) = string_of_int n"
| "js_String (JBoolean b) = (if b then ''true'' else ''false'')"
| "js_String JUndefined = ''undefined''"
| "js_String JNull = ''null''"
| "js_String JObject = ''[object Object]''"

fun instanceof_Error :: "thrown \<Rightarrow> bool" where
  "instanceof_Error (JError m) = True"
| "instanceof_Error _ = False"

text \<open>\<^verbatim>\<open>error instanceof Error ? error : new Error(String(error))\<close>\<close>

definition as_Error :: "thrown \<Rightarrow> thrown" where
  "as_Error error = (if instanceof_Error error then error else JError (js_String error))"

subsection \<open>Calls that leave the driver\<close>

text \<open>
  Every call of a caller-supplied function (a lifecycle callback, \<^verbatim>\<open>processFunction\<close>,
  \<^verbatim>\<open>fetchPageFunction\<close>) and the one \<^verbatim>\<open>console.log\<close> is recorded, with its arguments,
  in the run's log, in the order the calls are made. \<^verbatim>\<open>onStateUpdate\<close> has two optional
  arguments: the array driver passes both, the paginated driver none.
\<close>

datatype ('a, 'r, 'x) event =
    OnBatchStart jsnum jsnum "'a list" "'x State"
  | OnBatchComplete jsnum jsnum "'a list" int int "'x State"
  | OnItemSuccess 'a 'r int "'x State"
  | OnItemError 'a thrown int "'x State"
  | OnStateUpdate "'x State" "jsnum option" "jsnum option"
  | OnPageStart int int "'x State"
  | OnPageComplete int int int int "'x State"
  | ProcessCall 'a nat "'x State"
  | FetchPageCall int "'x State"
  | ConsoleLog string

text \<open>
  A callback is a function of its arguments that returns normally (\<open>None\<close>) or throws
  or rejects with a value (\<open>Some e\<close>); \<^verbatim>\<open>processFunction\<close> and \<^verbatim>\<open>fetchPageFunction\<close>
  resolve (\<open>Inr\<close>) or reject (\<open>Inl\<close>). The defaults \<^verbatim>\<open>() => {}\<close> are the functions that
  return \<open>None\<close>. Numeric options are optional, with the defaults of the destructuring.
  Caller code is taken to settle and not to write to the state object it is handed.
\<close>

record ('a, 'r, 'x) BatchOptions =
  batchSize :: "nat option"
  concurrencyLimit :: "nat option"
  onBatchStart :: "jsnum \<Rightarrow> jsnum \<Rightarrow> 'a list \<Rightarrow> 'x State \<Rightarrow> thrown option"
  onBatchComplete :: "jsnum \<Rightarrow> jsnum \<Rightarrow> 'a list \<Rightarrow> int \<Rightarrow> int \<Rightarrow> 'x State \<Rightarrow> thrown option"
  onItemSuccess :: "'a \<Rightarrow> 'r \<Rightarrow> int \<Rightarrow> 'x State \<Rightarrow> thrown option"
  onItemError :: "'a \<Rightarrow> thrown \<Rightarrow> int \<Rightarrow> 'x State \<Rightarrow> thrown option"
  onStateUpdate :: "'x State \<Rightarrow> jsnum option \<Rightarrow> jsnum option \<Rightarrow> thrown option"
  stateUpdateInterval :: "nat option"
  initialState :: "'x State option"

record ('a, 'r, 'x) PaginatedBatchOptions =
  p_initialPage :: "int option"
  p_concurrencyLimit :: "nat option"
  p_onPageStart :: "int \<Rightarrow> int \<Rightarrow> 'x State \<Rightarrow> thrown option"
  p_onPageComplete :: "int \<Rightarrow> int \<Rightarrow> int \<Rightarrow> int \<Rightarrow> 'x State \<Rightarrow> thrown option"
  p_onItemSuccess :: "'a \<Rightarrow> 'r \<Rightarrow> int \<Rightarrow> 'x State \<Rightarrow> thrown option"
  p_onItemError :: "'a \<Rightarrow> thrown \<Rightarrow> int \<Rightarrow> 'x State \<Rightarrow> thrown option"
  p_onStateUpdate :: "'x State \<Rightarrow> thrown option"
  p_stateUpdateInterval :: "nat option"
  p_initialState :: "'x State option"

definition with_default :: "'b \<Rightarrow> 'b option \<Rightarrow> 'b" where
  "with_default d v = (case v of None \<Rightarrow> d | Some x \<Rightarrow> x)"

text \<open>
  What the drivers do not decide: the order in which the event loop resumes the tasks
  of a batch (\<open>schedule\<close>, read one choice per scheduling step) and the clock
  (\<open>now k\<close> is what the \<open>k\<close>-th \<^verbatim>\<open>new Date().toISOString()\<close> of the run returns).
\<close>

record world =
  schedule :: "nat \<Rightarrow> nat"
  now :: "nat \<Rightarrow> string"

section \<open>The items of one batch or page\<close>

text \<open>
  Both drivers run the items of a batch (of a page) in the same way:
  \<^verbatim>\<open>await Promise.all(batch.map((item, index) => limit(async () => { ... })))\<close>, with
  the same task body. The body is modelled once; the drivers differ in the arguments
  they pass to \<^verbatim>\<open>onStateUpdate\<close>.

  The variables the tasks share (\<^verbatim>\<open>totalProcessed\<close>, \<^verbatim>\<open>totalFailed\<close>,
  \<^verbatim>\<open>currentState\<close>, \<^verbatim>\<open>batchProcessed\<close> or \<^verbatim>\<open>pageProcessed\<close>), with the log of
  calls, the number of clock readings and the number of scheduling steps so far:
\<close>

record ('a, 'r, 'x) vars =
  v_totalProcessed :: int
  v_totalFailed :: int
  v_currentState :: "'x State"
  v_batchProcessed :: nat
  v_log :: "('a, 'r, 'x) event list"
  v_clock :: nat
  v_steps :: nat

datatype 'r phase =
    AwaitProcess "thrown + 'r"
  | AwaitItemSuccess 'r "thrown option"
  | AwaitStateUpdate 'r "thrown option"
  | AwaitItemError "thrown option"

datatype settled = Fulfilled | Rejected thrown

record ('a, 'r, 'x) item_env =
  ie_process :: "'a \<Rightarrow> nat \<Rightarrow> 'x State \<Rightarrow> thrown + 'r"
  ie_onItemSuccess :: "'a \<Rightarrow> 'r \<Rightarrow> int \<Rightarrow> 'x State \<Rightarrow> thrown option"
  ie_onItemError :: "'a \<Rightarrow> thrown \<Rightarrow> int \<Rightarrow> 'x State \<Rightarrow> thrown option"
  ie_onStateUpdate :: "'x State \<Rightarrow> jsnum option \<Rightarrow> jsnum option \<Rightarrow> thrown option"
  ie_stateUpdateInterval :: nat
  ie_length :: nat
  ie_batchNumber :: "jsnum option"
  ie_totalBatches :: "jsnum option"
  ie_limit :: nat
  ie_now :: "nat \<Rightarrow> string"
  ie_schedule :: "nat \<Rightarrow> nat"

definition log_event :: "('a, 'r, 'x) event \<Rightarrow> ('a, 'r, 'x) vars \<Rightarrow> ('a, 'r, 'x) vars" where
  "log_event e v = v\<lparr>v_log := v_log v @ [e]\<rparr>"

definition catch_block ::
  "('a, 'r, 'x) item_env \<Rightarrow> 'a \<Rightarrow> thrown \<Rightarrow> ('a, 'r, 'x) vars \<Rightarrow> ('a, 'r, 'x) vars \<times> ('r phase + settled)" where
  "catch_block env item error v =
     (let tf = v_totalFailed v + 1;
          cs = v_currentState v
      in (log_event (OnItemError item (as_Error error) tf cs) (v\<lparr>v_totalFailed := tf\<rparr>),
          Inl (AwaitItemError (ie_onItemError env item (as_Error error) tf cs))))"

definition update_due :: "('a, 'r, 'x) item_env \<Rightarrow> nat \<Rightarrow> bool" where
  "update_due env bp \<longleftrightarrow>
     (ie_stateUpdateInterval env \<noteq> 0 \<and> bp mod ie_stateUpdateInterval env = 0) \<or> bp = ie_length env"

definition refresh_state :: "(nat \<Rightarrow> string) \<Rightarrow> ('a, 'r, 'x) vars \<Rightarrow> ('a, 'r, 'x) vars" where
  "refresh_state clock v =
     v\<lparr>v_currentState := (v_currentState v)
          \<lparr>totalProcessed := Some (v_totalProcessed v),
           totalFailed := Some (v_totalFailed v),
           lastUpdated := Some (clock (v_clock v))\<rparr>,
       v_clock := v_clock v + 1\<rparr>"

fun resume ::
  "('a, 'r, 'x) item_env \<Rightarrow> 'a \<Rightarrow> 'r phase \<Rightarrow> ('a, 'r, 'x) vars \<Rightarrow> ('a, 'r, 'x) vars \<times> ('r phase + settled)" where
  "resume env item (AwaitProcess (Inr result)) v =
     (let tp = v_totalProcessed v + 1;
          cs = v_currentState v
      in (log_event (OnItemSuccess item result tp cs)
            (v\<lparr>v_totalProcessed := tp, v_batchProcessed := v_batchProcessed v + 1\<rparr>),
          Inl (AwaitItemSuccess result (ie_onItemSuccess env item result tp cs))))"
| "resume env item (AwaitProcess (Inl error)) v = catch_block env item error v"
| "resume env item (AwaitItemSuccess result None) v =
     (if update_due env (v_batchProcessed v)
      then let v' = refresh_state (ie_now env) v;
               cs = v_currentState v'
           in (log_event (OnStateUpdate cs (ie_batchNumber env) (ie_totalBatches env)) v',
               Inl (AwaitStateUpdate result
                      (ie_onStateUpdate env cs (ie_batchNumber env) (ie_totalBatches env))))
      else (v, Inr Fulfilled))"
| "resume env item (AwaitItemSuccess result (Some error)) v = catch_block env item error v"
| "resume env item (AwaitStateUpdate result None) v = (v, Inr Fulfilled)"
| "resume env item (AwaitStateUpdate result (Some error)) v = catch_block env item error v"
| "resume env item (AwaitItemError None) v = (v, Inr Fulfilled)"
| "resume env item (AwaitItemError (Some error)) v = (v, Inr (Rejected error))"

text \<open>
  \<^verbatim>\<open>limit\<close> is the function that \<^verbatim>\<open>pLimit(concurrencyLimit)\<close> returns; the package
  \<^verbatim>\<open>p-limit\<close> is a dependency whose code is not among the sources. A gate holds the
  tasks submitted and not yet started (each with its index in the batch), the tasks
  started and not yet settled (each with what it is waiting for) and the shared
  variables.
\<close>

record ('a, 'r, 'x) gate =
  g_queue :: "(nat \<times> 'a) list"
  g_active :: "('a \<times> 'r phase) list"
  g_vars :: "('a, 'r, 'x) vars"

datatype ('a, 'r, 'x) step_result =
    Next "('a, 'r, 'x) gate"
  | AllSettled "('a, 'r, 'x) vars"
  | TaskRejected thrown "('a, 'r, 'x) vars"
  | NeverSettles

text \<open>
  Modelled from the spec: the admission rule of the Bounded Concurrency Gate
  (\<^verbatim>\<open>p-limit\<close>, whose code is missing). The spec gives its contract: no more than the
  ceiling are executing at any instant, excess admissions are queued in FIFO order, and
  the outcome of each task goes to its own caller without cancelling the others. So a
  task is started only while fewer than \<^verbatim>\<open>ie_limit\<close> tasks are running, and the task
  started is the one at the head of the queue. (\<^verbatim>\<open>pLimit\<close> refuses a limit of 0 when it
  is called, see \<^verbatim>\<open>await_all\<close>; a gate with that limit would never start a task.)
\<close>

definition can_admit :: "('a, 'r, 'x) item_env \<Rightarrow> ('a, 'r, 'x) gate \<Rightarrow> bool" where
  "can_admit env g \<longleftrightarrow> g_queue g \<noteq> [] \<and> length (g_active g) < ie_limit env"

text \<open>
  Modelled from the spec: starting the task at the head of the queue (\<^verbatim>\<open>p-limit\<close>, whose
  code is missing, runs the queued function). The task body then calls
  \<^verbatim>\<open>processFunction(item, index, currentState)\<close> and waits for it.
\<close>

definition admit :: "('a, 'r, 'x) item_env \<Rightarrow> ('a, 'r, 'x) gate \<Rightarrow> ('a, 'r, 'x) gate" where
  "admit env g =
     (case g_queue g of
        [] \<Rightarrow> g
      | (index, item) # rest \<Rightarrow>
          (let v = g_vars g; cs = v_currentState v
           in g\<lparr>g_queue := rest,
                g_active := g_active g @ [(item, AwaitProcess (ie_process env item index cs))],
                g_vars := log_event (ProcessCall item index cs) v\<rparr>))"

definition resume_task :: "('a, 'r, 'x) item_env \<Rightarrow> nat \<Rightarrow> ('a, 'r, 'x) gate \<Rightarrow> ('a, 'r, 'x) step_result" where
  "resume_task env k g =
     (case g_active g ! k of (item, ph) \<Rightarrow>
        (case resume env item ph (g_vars g) of
           (v', Inl ph') \<Rightarrow> Next (g\<lparr>g_active := (g_active g)[k := (item, ph')], g_vars := v'\<rparr>)
         | (v', Inr Fulfilled) \<Rightarrow>
             Next (g\<lparr>g_active := take k (g_active g) @ drop (Suc k) (g_active g), g_vars := v'\<rparr>)
         | (v', Inr (Rejected error)) \<Rightarrow> TaskRejected error v'))"

definition tick :: "('a, 'r, 'x) gate \<Rightarrow> ('a, 'r, 'x) gate" where
  "tick g = g\<lparr>g_vars := (g_vars g)\<lparr>v_steps := v_steps (g_vars g) + 1\<rparr>\<rparr>"

text \<open>
  One turn of the event loop while \<^verbatim>\<open>Promise.all\<close> is awaited: the schedule picks either
  the start of the next queued task, when the gate admits one, or one of the running
  tasks, which then runs to its next \<^verbatim>\<open>await\<close>. With nothing queued and nothing running
  \<^verbatim>\<open>Promise.all\<close> is fulfilled; the rejection of a task rejects it.
\<close>

definition gate_step :: "('a, 'r, 'x) item_env \<Rightarrow> ('a, 'r, 'x) gate \<Rightarrow> ('a, 'r, 'x) step_result" where
  "gate_step env g =
     (let n = (if can_admit env g then 1 else 0) + length (g_active g)
      in if n = 0 then (if g_queue g = [] then AllSettled (g_vars g) else NeverSettles)
         else
           (let c = ie_schedule env (v_steps (g_vars g)) mod n; g' = tick g
            in if can_admit env g then
                 (if c = 0 then Next (admit env g') else resume_task env (c - 1) g')
               else resume_task env c g'))"

fun phase_rank :: "'r phase \<Rightarrow> nat" where
  "phase_rank (AwaitProcess _) = 4"
| "phase_rank (AwaitItemSuccess _ _) = 3"
| "phase_rank (AwaitStateUpdate _ _) = 2"
| "phase_rank (AwaitItemError _) = 1"

definition gate_rank :: "('a, 'r, 'x) gate \<Rightarrow> nat" where
  "gate_rank g = 5 * length (g_queue g) + sum_list (map (\<lambda>(item, ph). phase_rank ph) (g_active g))"

lemma resume_rank:
  "resume env item ph v = (v', Inl ph') \<Longrightarrow> phase_rank ph' < phase_rank ph"
  by (cases "(env, item, ph, v)" rule: resume.cases)
     (auto simp: catch_block_def Let_def split: if_splits)

lemma phase_rank_pos: "0 < phase_rank ph"
  by (cases ph) auto

lemma sum_list_update_less:
  fixes f :: "'b \<Rightarrow> nat"
  shows "k < length xs \<Longrightarrow> f y < f (xs ! k) \<Longrightarrow> sum_list (map f (xs[k := y])) < sum_list (map f xs)"
proof (induction xs arbitrary: k)
  case Nil
  then show ?case by simp
next
  case (Cons x xs)
  then show ?case by (cases k) auto
qed

lemma sum_list_remove_less:
  fixes f :: "'b \<Rightarrow> nat"
  shows "k < length xs \<Longrightarrow> 0 < f (xs ! k) \<Longrightarrow>
    sum_list (map f (take k xs @ drop (Suc k) xs)) < sum_list (map f xs)"
proof (induction xs arbitrary: k)
  case Nil
  then show ?case by simp
next
  case (Cons x xs)
  then show ?case by (cases k) auto
qed

lemma resume_task_rank:
  assumes "k < length (g_active g)" "resume_task env k g = Next g'"
  shows "gate_rank g' < gate_rank g"
proof -
  obtain item ph where ip: "g_active g ! k = (item, ph)" by (cases "g_active g ! k")
  obtain v' r where r: "resume env item ph (g_vars g) = (v', r)" by (cases "resume env item ph (g_vars g)")
  show ?thesis
  proof (cases r)
    case (Inl ph')
    then have g': "g' = g\<lparr>g_active := (g_active g)[k := (item, ph')], g_vars := v'\<rparr>"
      using assms(2) ip r by (simp add: resume_task_def)
    have "phase_rank ph' < phase_rank ph" using r Inl resume_rank by fast
    then show ?thesis
      using sum_list_update_less[of k "g_active g" "\<lambda>(item, ph). phase_rank ph" "(item, ph')"] assms(1) ip
      by (simp add: g' gate_rank_def)
  next
    case (Inr s)
    then obtain g': "g' = g\<lparr>g_active := take k (g_active g) @ drop (Suc k) (g_active g), g_vars := v'\<rparr>"
      using assms(2) ip r by (cases s) (simp_all add: resume_task_def)
    show ?thesis
      using sum_list_remove_less[of k "g_active g" "\<lambda>(item, ph). phase_rank ph"] assms(1) ip
      by (simp add: g' gate_rank_def phase_rank_pos)
  qed
qed

lemma gate_rank_tick [simp]: "gate_rank (tick g) = gate_rank g"
  by (simp add: gate_rank_def tick_def)

lemma admit_rank: "g_queue g \<noteq> [] \<Longrightarrow> gate_rank (admit env g) < gate_rank g"
  by (auto simp: admit_def gate_rank_def Let_def split: list.splits)

lemma gate_step_rank:
  assumes "gate_step env g = Next g'"
  shows "gate_rank g' < gate_rank g"
proof (cases "can_admit env g")
  case True
  let ?n = "1 + length (g_active g)"
  let ?c = "ie_schedule env (v_steps (g_vars g)) mod ?n"
  show ?thesis
  proof (cases "?c = 0")
    case c0: True
    have "g' = admit env (tick g)" using assms True c0 by (simp add: gate_step_def Let_def)
    moreover have "g_queue (tick g) \<noteq> []" using True by (simp add: can_admit_def tick_def)
    ultimately show ?thesis using admit_rank[of "tick g" env] by simp
  next
    case c1: False
    have "resume_task env (?c - 1) (tick g) = Next g'"
      using assms True c1 by (simp add: gate_step_def Let_def)
    moreover have "?c - 1 < length (g_active (tick g))"
      using c1 proof -
      have "?c < ?n" by simp
      then have "?c - 1 < length (g_active g)" using c1 by linarith
      then show ?thesis by (simp add: tick_def)
    qed
    ultimately show ?thesis using resume_task_rank[of "?c - 1" "tick g" env g'] by simp
  qed
next
  case False
  let ?n = "length (g_active g)"
  let ?c = "ie_schedule env (v_steps (g_vars g)) mod ?n"
  have n: "?n \<noteq> 0" using assms False by (auto simp: gate_step_def Let_def split: if_splits)
  then have "resume_task env ?c (tick g) = Next g'"
    using assms False by (simp add: gate_step_def Let_def)
  moreover have "?c < length (g_active (tick g))" using n by (simp add: tick_def)
  ultimately show ?thesis using resume_task_rank[of ?c "tick g" env g'] by simp
qed

function run_gate :: "('a, 'r, 'x) item_env \<Rightarrow> ('a, 'r, 'x) gate \<Rightarrow> ('a, 'r, 'x) step_result" where
  "run_gate env g = (case gate_step env g of Next g' \<Rightarrow> run_gate env g' | r \<Rightarrow> r)"
  by pat_completeness auto
termination
  by (relation "measure (\<lambda>(env, g). gate_rank g)") (auto simp: gate_step_rank)

declare run_gate.simps [simp del]

section \<open>The drivers\<close>

text \<open>
  A run returns its result, or rejects with what a callback, \<^verbatim>\<open>fetchPageFunction\<close>,
  \<^verbatim>\<open>pLimit\<close> or a task threw; both come with the log of the calls made until then. When
  a task is rejected \<^verbatim>\<open>Promise.all\<close> rejects at once, and the driver with it; the tasks of
  the batch that are still running then go on, and the calls they make after the driver
  has rejected are not in the log. A run that never returns is \<open>None\<close>.
\<close>

datatype ('a, 'r, 'x) outcome =
    Returned "'x BatchResult" "('a, 'r, 'x) event list"
  | Threw thrown "('a, 'r, 'x) event list"

datatype ('s, 'a, 'r, 'x) iteration =
    Continue 's "('a, 'r, 'x) vars"
  | Abort thrown "('a, 'r, 'x) vars"
  | Stuck

definition await_call ::
  "('a, 'r, 'x) event \<Rightarrow> thrown option \<Rightarrow> ('a, 'r, 'x) vars \<Rightarrow>
   (('a, 'r, 'x) vars \<Rightarrow> ('s, 'a, 'r, 'x) iteration) \<Rightarrow> ('s, 'a, 'r, 'x) iteration" where
  "await_call e r v k =
     (case r of
        Some error \<Rightarrow> Abort error (log_event e v)
      | None \<Rightarrow> k (log_event e v))"

text \<open>
  \<^verbatim>\<open>const limit = pLimit(concurrencyLimit); let batchProcessed = 0;
  await Promise.all(batch.map((item, index) => limit(async () => { ... })))\<close>.
  \<^verbatim>\<open>pLimit\<close> checks its argument and throws a \<^verbatim>\<open>TypeError\<close> for a limit that is not a
  positive integer; of these the model has 0. Otherwise every item is submitted, in the
  order of the array, and the gate runs until all tasks are settled or one is rejected.
\<close>

definition pLimit_TypeError :: thrown where
  "pLimit_TypeError = JError ''Expected `concurrency` to be a number from 1 and up''"

definition await_all ::
  "('a, 'r, 'x) item_env \<Rightarrow> 'a list \<Rightarrow> ('a, 'r, 'x) vars \<Rightarrow>
   (('a, 'r, 'x) vars \<Rightarrow> ('s, 'a, 'r, 'x) iteration) \<Rightarrow> ('s, 'a, 'r, 'x) iteration" where
  "await_all env batch v k =
     (if ie_limit env = 0 then Abort pLimit_TypeError v
      else
        (case run_gate env \<lparr>g_queue = zip [0..<length batch] batch, g_active = [],
                             g_vars = v\<lparr>v_batchProcessed := 0\<rparr>\<rparr> of
           AllSettled v' \<Rightarrow> k v'
         | TaskRejected error v' \<Rightarrow> Abort error v'
         | NeverSettles \<Rightarrow> Stuck
         | Next g \<Rightarrow> Stuck))"

definition batch_env ::
  "('a, 'r, 'x) BatchOptions \<Rightarrow> ('a \<Rightarrow> nat \<Rightarrow> 'x State \<Rightarrow> thrown + 'r) \<Rightarrow> world \<Rightarrow>
   'a list \<Rightarrow> jsnum \<Rightarrow> jsnum \<Rightarrow> ('a, 'r, 'x) item_env" where
  "batch_env options processFunction w batch batchNumber totalBatches =
     \<lparr>ie_process = processFunction,
      ie_onItemSuccess = onItemSuccess options,
      ie_onItemError = onItemError options,
      ie_onStateUpdate = onStateUpdate options,
      ie_stateUpdateInterval = with_default 5 (stateUpdateInterval options),
      ie_length = length batch,
      ie_batchNumber = Some batchNumber,
      ie_totalBatches = Some totalBatches,
      ie_limit = with_default 10 (concurrencyLimit options),
      ie_now = now w,
      ie_schedule = schedule w\<rparr>"

definition slice :: "'a list \<Rightarrow> nat \<Rightarrow> nat \<Rightarrow> 'a list" where
  "slice xs i j = take (j - i) (drop i xs)"

definition batch_iteration ::
  "('a, 'r, 'x) BatchOptions \<Rightarrow> ('a \<Rightarrow> nat \<Rightarrow> 'x State \<Rightarrow> thrown + 'r) \<Rightarrow> world \<Rightarrow>
   'a list \<Rightarrow> nat \<Rightarrow> ('a, 'r, 'x) vars \<Rightarrow> (unit, 'a, 'r, 'x) iteration" where
  "batch_iteration options processFunction w items i v =
     (let size = with_default 20 (batchSize options);
          totalBatches = math_ceil_div (length items) size;
          batch = slice items i (i + size);
          batchNumber = math_floor_div_plus1 i size
      in await_call (OnBatchStart batchNumber totalBatches batch (v_currentState v))
           (onBatchStart options batchNumber totalBatches batch (v_currentState v)) v
         (\<lambda>v. await_all (batch_env options processFunction w batch batchNumber totalBatches) batch v
         (\<lambda>v. let v = refresh_state (now w) v
              in await_call (OnStateUpdate (v_currentState v) (Some batchNumber) (Some totalBatches))
                   (onStateUpdate options (v_currentState v) (Some batchNumber) (Some totalBatches)) v
         (\<lambda>v. await_call
                (OnBatchComplete batchNumber totalBatches batch (v_totalProcessed v)
                   (v_totalFailed v) (v_currentState v))
                (onBatchComplete options batchNumber totalBatches batch (v_totalProcessed v)
                   (v_totalFailed v) (v_currentState v)) v
              (Continue ())))))"

definition result_of :: "('a, 'r, 'x) vars \<Rightarrow> ('a, 'r, 'x) outcome" where
  "result_of v =
     Returned \<lparr>processed = v_totalProcessed v, failed = v_totalFailed v, state = v_currentState v\<rparr>
       (v_log v)"

partial_function (option) batches_from ::
  "('a, 'r, 'x) BatchOptions \<Rightarrow> ('a \<Rightarrow> nat \<Rightarrow> 'x State \<Rightarrow> thrown + 'r) \<Rightarrow> world \<Rightarrow>
   'a list \<Rightarrow> nat \<Rightarrow> ('a, 'r, 'x) vars \<Rightarrow> ('a, 'r, 'x) outcome option" where
  "batches_from options processFunction w items i v =
     (if i < length items then
        (case batch_iteration options processFunction w items i v of
           Continue u v' \<Rightarrow>
             batches_from options processFunction w items (i + with_default 20 (batchSize options)) v'
         | Abort error v' \<Rightarrow> Some (Threw error (v_log v'))
         | Stuck \<Rightarrow> None)
      else Some (result_of v))"

declare batches_from.simps [code]

text \<open>
  \<^verbatim>\<open>let totalProcessed = initialState.totalProcessed || 0\<close>, and the same for
  \<^verbatim>\<open>totalFailed\<close>. The counters are JavaScript numbers; they are taken as integers and
  \<^verbatim>\<open>++\<close> as \<open>+ 1\<close>, which is what the code computes as long as a counter is an integer
  of magnitude below \<open>2\<^sup>5\<^sup>3\<close>. An array has fewer than \<open>2\<^sup>3\<^sup>2\<close> items, so only a seed from
  \<^verbatim>\<open>initialState\<close> can take a counter out of that range.
\<close>

definition initial_vars :: "'x State \<Rightarrow> 'x State \<Rightarrow> ('a, 'r, 'x) vars" where
  "initial_vars init cs =
     \<lparr>v_totalProcessed = or_default (totalProcessed init) 0,
      v_totalFailed = or_default (totalFailed init) 0,
      v_currentState = cs,
      v_batchProcessed = 0,
      v_log = [],
      v_clock = 0,
      v_steps = 0\<rparr>"

definition processBatches ::
  "'a list \<Rightarrow> ('a \<Rightarrow> nat \<Rightarrow> 'x State \<Rightarrow> thrown + 'r) \<Rightarrow> ('a, 'r, 'x) BatchOptions \<Rightarrow> world \<Rightarrow>
   ('a, 'r, 'x) outcome option" where
  "processBatches items processFunction options w =
     (let init = with_default empty_State (initialState options)
      in batches_from options processFunction w items 0 (initial_vars init init))"

definition page_env ::
  "('a, 'r, 'x) PaginatedBatchOptions \<Rightarrow> ('a \<Rightarrow> nat \<Rightarrow> 'x State \<Rightarrow> thrown + 'r) \<Rightarrow> world \<Rightarrow>
   'a list \<Rightarrow> ('a, 'r, 'x) item_env" where
  "page_env options processFunction w items =
     \<lparr>ie_process = processFunction,
      ie_onItemSuccess = p_onItemSuccess options,
      ie_onItemError = p_onItemError options,
      ie_onStateUpdate = (\<lambda>s bn tb. p_onStateUpdate options s),
      ie_stateUpdateInterval = with_default 5 (p_stateUpdateInterval options),
      ie_length = length items,
      ie_batchNumber = None,
      ie_totalBatches = None,
      ie_limit = with_default 10 (p_concurrencyLimit options),
      ie_now = now w,
      ie_schedule = schedule w\<rparr>"

definition emit_state ::
  "('a, 'r, 'x) PaginatedBatchOptions \<Rightarrow> ('a, 'r, 'x) vars \<Rightarrow>
   (('a, 'r, 'x) vars \<Rightarrow> ('s, 'a, 'r, 'x) iteration) \<Rightarrow> ('s, 'a, 'r, 'x) iteration" where
  "emit_state options v k =
     await_call (OnStateUpdate (v_currentState v) None None)
       (p_onStateUpdate options (v_currentState v)) v k"

definition sync_totalPages ::
  "('a, 'r, 'x) PaginatedBatchOptions \<Rightarrow> 'a PageData \<Rightarrow> int \<Rightarrow> ('a, 'r, 'x) vars \<Rightarrow>
   (int \<Rightarrow> ('a, 'r, 'x) vars \<Rightarrow> ('s, 'a, 'r, 'x) iteration) \<Rightarrow> ('s, 'a, 'r, 'x) iteration" where
  "sync_totalPages options pageData pages v k =
     (case pd_totalPages pageData of
        None \<Rightarrow> k pages v
      | Some n \<Rightarrow>
          if n \<noteq> 0 \<and> n \<noteq> pages
          then emit_state options (v\<lparr>v_currentState := (v_currentState v)\<lparr>totalPages := Some n\<rparr>\<rparr>) (k n)
          else k pages v)"

definition page_items :: "'a PageData \<Rightarrow> 'a list" where
  "page_items pageData =
     (case pd_items pageData of
        Some xs \<Rightarrow> xs
      | None \<Rightarrow> (case pd_results pageData of Some ys \<Rightarrow> ys | None \<Rightarrow> []))"

text \<open>What the paginated driver does with the items of a fetched page.\<close>

definition process_page ::
  "('a, 'r, 'x) PaginatedBatchOptions \<Rightarrow> ('a \<Rightarrow> nat \<Rightarrow> 'x State \<Rightarrow> thrown + 'r) \<Rightarrow> world \<Rightarrow>
   int \<Rightarrow> 'a PageData \<Rightarrow> int \<Rightarrow> ('a, 'r, 'x) vars \<Rightarrow> (int \<times> int, 'a, 'r, 'x) iteration" where
  "process_page options processFunction w page pageData pages v =
     (let items = page_items pageData in
      if length items = 0 then
        emit_state options
          ((log_event (ConsoleLog (''No items found on page '' @ string_of_int page @ ''.'')) v)
             \<lparr>v_currentState := (v_currentState v)\<lparr>currentPage := Some (page + 1)\<rparr>\<rparr>)
          (Continue (page + 1, pages))
      else
        await_all (page_env options processFunction w items) items v
        (\<lambda>v. emit_state options
             ((refresh_state (now w) v)
                \<lparr>v_currentState := (v_currentState (refresh_state (now w) v))
                   \<lparr>currentPage := Some (page + 1)\<rparr>\<rparr>)
        (\<lambda>v. await_call
               (OnPageComplete (page + 1 - 1) pages (int (v_batchProcessed v))
                  (v_totalProcessed v) (v_currentState v))
               (p_onPageComplete options (page + 1 - 1) pages (int (v_batchProcessed v))
                  (v_totalProcessed v) (v_currentState v)) v
             (Continue (page + 1, pages)))))"

text \<open>One iteration of \<^verbatim>\<open>while (currentPage <= totalPages)\<close>.\<close>

definition page_iteration ::
  "('a, 'r, 'x) PaginatedBatchOptions \<Rightarrow> (int \<Rightarrow> 'x State \<Rightarrow> thrown + 'a PageData) \<Rightarrow>
   ('a \<Rightarrow> nat \<Rightarrow> 'x State \<Rightarrow> thrown + 'r) \<Rightarrow> world \<Rightarrow> int \<Rightarrow> int \<Rightarrow> ('a, 'r, 'x) vars \<Rightarrow>
   (int \<times> int, 'a, 'r, 'x) iteration" where
  "page_iteration options fetchPageFunction processFunction w page pages v =
     await_call (OnPageStart page pages (v_currentState v))
       (p_onPageStart options page pages (v_currentState v)) v
     (\<lambda>v. case fetchPageFunction page (v_currentState v) of
          Inl error \<Rightarrow> Abort error (log_event (FetchPageCall page (v_currentState v)) v)
        | Inr pageData \<Rightarrow>
            sync_totalPages options pageData pages
              (log_event (FetchPageCall page (v_currentState v)) v)
              (process_page options processFunction w page pageData))"

partial_function (option) pages_from ::
  "('a, 'r, 'x) PaginatedBatchOptions \<Rightarrow> (int \<Rightarrow> 'x State \<Rightarrow> thrown + 'a PageData) \<Rightarrow>
   ('a \<Rightarrow> nat \<Rightarrow> 'x State \<Rightarrow> thrown + 'r) \<Rightarrow> world \<Rightarrow> int \<Rightarrow> int \<Rightarrow> ('a, 'r, 'x) vars \<Rightarrow>
   ('a, 'r, 'x) outcome option" where
  "pages_from options fetchPageFunction processFunction w page pages v =
     (if page \<le> pages then
        (case page_iteration options fetchPageFunction processFunction w page pages v of
           Continue (page', pages') v' \<Rightarrow>
             pages_from options fetchPageFunction processFunction w page' pages' v'
         | Abort error v' \<Rightarrow> Some (Threw error (v_log v'))
         | Stuck \<Rightarrow> None)
      else Some (result_of v))"

declare pages_from.simps [code]

definition processPaginatedBatches ::
  "(int \<Rightarrow> 'x State \<Rightarrow> thrown + 'a PageData) \<Rightarrow> ('a \<Rightarrow> nat \<Rightarrow> 'x State \<Rightarrow> thrown + 'r) \<Rightarrow>
   ('a, 'r, 'x) PaginatedBatchOptions \<Rightarrow> world \<Rightarrow> ('a, 'r, 'x) outcome option" where
  "processPaginatedBatches fetchPageFunction processFunction options w =
     (let init = with_default empty_State (p_initialState options);
          page = or_default (currentPage init) (with_default 1 (p_initialPage options));
          pages = or_default (totalPages init) 1;
          v = initial_vars init init
      in pages_from options fetchPageFunction processFunction w page pages
           (v\<lparr>v_currentState := init\<lparr>currentPage := Some page, totalPages := Some pages,
                 totalProcessed := Some (v_totalProcessed v),
                 totalFailed := Some (v_totalFailed v)\<rparr>\<rparr>))"

section \<open>Loops that are over\<close>

lemma batches_from_done:
  "length items \<le> i \<Longrightarrow> batches_from options processFunction w items i v = Some (result_of v)"
  by (subst batches_from.simps) simp

section \<open>What a run can do to its variables\<close>

text \<open>
  Every change the drivers make to their variables is one of a few moves; what holds
  of the moves holds of every run. \<open>paged\<close> tells the paginated driver, the only one
  that writes \<^verbatim>\<open>currentPage\<close> and \<^verbatim>\<open>totalPages\<close>, from the array driver.
\<close>


fun plain_call :: "bool \<Rightarrow> ('a, 'r, 'x) vars \<Rightarrow> ('a, 'r, 'x) event \<Rightarrow> bool" where
  "plain_call paged v (OnBatchStart bn tb batch s) = (\<not> paged \<and> s = v_currentState v)"
| "plain_call paged v (OnBatchComplete bn tb batch tp tf s) =
     (\<not> paged \<and> s = v_currentState v \<and> tp = v_totalProcessed v \<and> tf = v_totalFailed v)"
| "plain_call paged v (OnItemSuccess item r tp s) = False"
| "plain_call paged v (OnItemError item error tf s) = False"
| "plain_call paged v (OnStateUpdate s bn tb) = (s = v_currentState v)"
| "plain_call paged v (OnPageStart p n s) = (paged \<and> s = v_currentState v)"
| "plain_call paged v (OnPageComplete p n pp tp s) =
     (paged \<and> s = v_currentState v \<and> tp = v_totalProcessed v \<and> pp = int (v_batchProcessed v))"
| "plain_call paged v (ProcessCall item index s) = (s = v_currentState v)"
| "plain_call paged v (FetchPageCall p s) = (paged \<and> s = v_currentState v)"
| "plain_call paged v (ConsoleLog m) = paged"

inductive move :: "bool \<Rightarrow> ('a, 'r, 'x) vars \<Rightarrow> ('a, 'r, 'x) vars \<Rightarrow> bool" for paged where
  call: "plain_call paged v e \<Longrightarrow> move paged v (log_event e v)"
| success:
    "move paged v
       (log_event (OnItemSuccess item r (v_totalProcessed v + 1) (v_currentState v))
          (v\<lparr>v_totalProcessed := v_totalProcessed v + 1, v_batchProcessed := v_batchProcessed v + 1\<rparr>))"
| failure:
    "move paged v
       (log_event (OnItemError item (as_Error error) (v_totalFailed v + 1) (v_currentState v))
          (v\<lparr>v_totalFailed := v_totalFailed v + 1\<rparr>))"
| refresh: "move paged v (refresh_state clk v)"
| set_page: "paged \<Longrightarrow> move paged v (v\<lparr>v_currentState := (v_currentState v)\<lparr>currentPage := Some p\<rparr>\<rparr>)"
| set_pages: "paged \<Longrightarrow> move paged v (v\<lparr>v_currentState := (v_currentState v)\<lparr>totalPages := Some n\<rparr>\<rparr>)"
| tick: "move paged v (v\<lparr>v_steps := n\<rparr>)"
| reset: "move paged v (v\<lparr>v_batchProcessed := 0\<rparr>)"

definition evolves :: "bool \<Rightarrow> ('a, 'r, 'x) vars \<Rightarrow> ('a, 'r, 'x) vars \<Rightarrow> bool" where
  "evolves paged = rtranclp (move paged)"

lemma evolves_refl [simp]: "evolves paged v v"
  by (simp add: evolves_def)

lemma evolves_move: "evolves paged v v' \<Longrightarrow> move paged v' v'' \<Longrightarrow> evolves paged v v''"
  by (simp add: evolves_def)

lemma evolves_trans: "evolves paged v v' \<Longrightarrow> evolves paged v' v'' \<Longrightarrow> evolves paged v v''"
  by (simp add: evolves_def)

lemma evolves_induct [consumes 1, case_names base step]:
  assumes "evolves paged v v'" and "P v"
    and "\<And>u u'. evolves paged v u \<Longrightarrow> P u \<Longrightarrow> move paged u u' \<Longrightarrow> P u'"
  shows "P v'"
  using assms(1) unfolding evolves_def
proof (induction rule: rtranclp_induct)
  case base
  show ?case by (rule assms(2))
next
  case (step y z)
  then show ?case using assms(3) by (simp add: evolves_def)
qed

lemma catch_block_evolves:
  "catch_block env item error v = (v', r) \<Longrightarrow> evolves paged v v'"
  using move.failure[where paged = paged and item = item and error = error and v = v]
  by (auto simp: catch_block_def Let_def intro: evolves_move[OF evolves_refl])

lemma resume_evolves: "resume env item ph v = (v', r) \<Longrightarrow> evolves paged v v'"
proof (induction env item ph v rule: resume.induct)
  case (1 env item result v)
  then show ?case
    using move.success[where paged = paged and item = item and r = result and v = v]
    by (auto simp: Let_def intro: evolves_move[OF evolves_refl])
next
  case (3 env item result v)
  show ?case
  proof (cases "update_due env (v_batchProcessed v)")
    case True
    let ?v1 = "refresh_state (ie_now env) v"
    have "move paged v ?v1" by (rule move.refresh)
    moreover have "move paged ?v1
      (log_event (OnStateUpdate (v_currentState ?v1) (ie_batchNumber env) (ie_totalBatches env)) ?v1)"
      by (rule move.call) simp
    ultimately have "evolves paged v
      (log_event (OnStateUpdate (v_currentState ?v1) (ie_batchNumber env) (ie_totalBatches env)) ?v1)"
      by (meson evolves_move evolves_refl)
    then show ?thesis using 3 True by (auto simp: Let_def)
  next
    case False
    then show ?thesis using 3 by auto
  qed
qed (auto dest: catch_block_evolves)

lemma admit_evolves: "evolves paged (g_vars g) (g_vars (admit env g))"
proof (cases "g_queue g")
  case Nil
  then show ?thesis by (simp add: admit_def)
next
  case (Cons p rest)
  obtain index item where p: "p = (index, item)" by (cases p)
  have "move paged (g_vars g) (log_event (ProcessCall item index (v_currentState (g_vars g))) (g_vars g))"
    by (rule move.call) simp
  then show ?thesis using Cons p by (auto simp: admit_def Let_def intro: evolves_move[OF evolves_refl])
qed

lemma tick_evolves: "evolves paged (g_vars g) (g_vars (tick g))"
  using move.tick[where paged = paged and v = "g_vars g" and n = "v_steps (g_vars g) + 1"]
  by (auto simp: tick_def intro: evolves_move[OF evolves_refl])

lemma resume_task_Next:
  assumes "resume_task env k g = Next g'"
  obtains item ph v' r where "g_active g ! k = (item, ph)" "resume env item ph (g_vars g) = (v', r)"
    "g_vars g' = v'" "g_queue g' = g_queue g"
    "(\<exists>ph'. r = Inl ph' \<and> g_active g' = (g_active g)[k := (item, ph')]) \<or>
     (r = Inr Fulfilled \<and> g_active g' = take k (g_active g) @ drop (Suc k) (g_active g))"
proof -
  obtain item ph where ip: "g_active g ! k = (item, ph)" by (cases "g_active g ! k")
  obtain v' r where r: "resume env item ph (g_vars g) = (v', r)" by (cases "resume env item ph (g_vars g)")
  show thesis
  proof (cases r)
    case (Inl ph')
    then show ?thesis using that[OF ip r] assms ip r by (auto simp: resume_task_def)
  next
    case (Inr s)
    then show ?thesis using that[OF ip r] assms ip r by (cases s) (auto simp: resume_task_def)
  qed
qed

lemma resume_task_Rejected:
  assumes "resume_task env k g = TaskRejected error v'"
  obtains item ph where "g_active g ! k = (item, ph)"
    "resume env item ph (g_vars g) = (v', Inr (Rejected error))"
proof -
  obtain item ph where ip: "g_active g ! k = (item, ph)" by (cases "g_active g ! k")
  obtain v'' r where r: "resume env item ph (g_vars g) = (v'', r)" by (cases "resume env item ph (g_vars g)")
  show thesis
  proof (cases r)
    case (Inl ph')
    then show ?thesis using assms ip r by (auto simp: resume_task_def)
  next
    case (Inr s)
    then show ?thesis using that[OF ip] assms ip r by (cases s) (auto simp: resume_task_def)
  qed
qed

lemma resume_task_other:
  "resume_task env k g \<noteq> AllSettled v" "resume_task env k g \<noteq> NeverSettles"
  by (auto simp: resume_task_def split: prod.splits sum.splits settled.splits)

text \<open>The three ways a scheduling step can go on, and the three ways it can end.\<close>

lemma gate_step_Next:
  assumes "gate_step env g = Next g'"
  obtains (admitted) "can_admit env g" "g' = admit env (tick g)"
  | (resumed) k where "k < length (g_active g)" "resume_task env k (tick g) = Next g'"
proof (cases "can_admit env g")
  case True
  let ?c = "ie_schedule env (v_steps (g_vars g)) mod (1 + length (g_active g))"
  show ?thesis
  proof (cases "?c = 0")
    case c0: True
    then show ?thesis using assms True admitted by (simp add: gate_step_def Let_def)
  next
    case c1: False
    have "?c < 1 + length (g_active g)" by simp
    then have "?c - 1 < length (g_active g)" using c1 by linarith
    then show ?thesis using assms True c1 resumed[of "?c - 1"] by (simp add: gate_step_def Let_def)
  qed
next
  case False
  let ?c = "ie_schedule env (v_steps (g_vars g)) mod length (g_active g)"
  have n: "length (g_active g) \<noteq> 0" using assms False by (auto simp: gate_step_def Let_def split: if_splits)
  then have "?c < length (g_active g)" by simp
  then show ?thesis using assms False n resumed[of ?c] by (simp add: gate_step_def Let_def)
qed

lemma gate_step_Rejected:
  assumes "gate_step env g = TaskRejected error v'"
  obtains k where "k < length (g_active g)" "resume_task env k (tick g) = TaskRejected error v'"
proof (cases "can_admit env g")
  case True
  let ?c = "ie_schedule env (v_steps (g_vars g)) mod (1 + length (g_active g))"
  show ?thesis
  proof (cases "?c = 0")
    case c0: True
    then show ?thesis using assms True by (simp add: gate_step_def Let_def)
  next
    case c1: False
    have "?c < 1 + length (g_active g)" by simp
    then have "?c - 1 < length (g_active g)" using c1 by linarith
    then show ?thesis using assms True c1 that[of "?c - 1"] by (simp add: gate_step_def Let_def)
  qed
next
  case False
  let ?c = "ie_schedule env (v_steps (g_vars g)) mod length (g_active g)"
  have n: "length (g_active g) \<noteq> 0" using assms False by (auto simp: gate_step_def Let_def split: if_splits)
  then have "?c < length (g_active g)" by simp
  then show ?thesis using assms False n that[of ?c] by (simp add: gate_step_def Let_def)
qed

lemma gate_step_AllSettled:
  "gate_step env g = AllSettled v \<longleftrightarrow> g_queue g = [] \<and> g_active g = [] \<and> v = g_vars g"
  by (auto simp: gate_step_def Let_def can_admit_def resume_task_other split: if_splits)

lemma gate_step_NeverSettles:
  "gate_step env g = NeverSettles \<longleftrightarrow> g_queue g \<noteq> [] \<and> g_active g = [] \<and> ie_limit env = 0"
  by (auto simp: gate_step_def Let_def can_admit_def resume_task_other split: if_splits)

lemma active_tick [simp]: "g_active (tick g) = g_active g" "g_queue (tick g) = g_queue g"
  by (simp_all add: tick_def)

lemma gate_step_evolves:
  "gate_step env g = Next g' \<Longrightarrow> evolves paged (g_vars g) (g_vars g')"
proof (erule gate_step_Next)
  assume "g' = admit env (tick g)"
  then show ?thesis using admit_evolves[of paged "tick g" env] tick_evolves[of paged g]
    by (auto intro: evolves_trans)
next
  fix k assume "resume_task env k (tick g) = Next g'"
  then show ?thesis
    by (elim resume_task_Next) (metis evolves_trans resume_evolves tick_evolves)
qed

lemma gate_step_Rejected_evolves:
  "gate_step env g = TaskRejected error v' \<Longrightarrow> evolves paged (g_vars g) v'"
  by (elim gate_step_Rejected resume_task_Rejected) (metis evolves_trans resume_evolves tick_evolves)

text \<open>A run of the gate ends with the step of some gate that an invariant has reached.\<close>

lemma run_gate_final:
  assumes "I g" and "\<And>g g'. I g \<Longrightarrow> gate_step env g = Next g' \<Longrightarrow> I g'"
  shows "\<exists>gf. I gf \<and> gate_step env gf = run_gate env g \<and> (\<forall>g'. run_gate env g \<noteq> Next g')"
  using assms
proof (induction env g rule: run_gate.induct)
  case (1 env g)
  show ?case
  proof (cases "gate_step env g")
    case (Next g')
    then have "run_gate env g = run_gate env g'" by (simp add: run_gate.simps[of env g])
    moreover have "I g'" using 1(2,3) Next by blast
    ultimately show ?thesis using 1(1)[OF Next _ 1(3)] by simp
  next
    case (AllSettled v)
    then have "run_gate env g = AllSettled v" by (simp add: run_gate.simps[of env g])
    then show ?thesis using 1(2) AllSettled by auto
  next
    case (TaskRejected e v)
    then have "run_gate env g = TaskRejected e v" by (simp add: run_gate.simps[of env g])
    then show ?thesis using 1(2) TaskRejected by auto
  next
    case NeverSettles
    then have "run_gate env g = NeverSettles" by (simp add: run_gate.simps[of env g])
    then show ?thesis using 1(2) NeverSettles by auto
  qed
qed

lemma run_gate_evolves:
  "run_gate env g = AllSettled v' \<or> run_gate env g = TaskRejected error v' \<Longrightarrow>
   evolves paged (g_vars g) v'"
proof -
  assume r: "run_gate env g = AllSettled v' \<or> run_gate env g = TaskRejected error v'"
  have "\<exists>gf. evolves paged (g_vars g) (g_vars gf) \<and> gate_step env gf = run_gate env g \<and>
     (\<forall>g'. run_gate env g \<noteq> Next g')"
    by (rule run_gate_final[where I = "\<lambda>h. evolves paged (g_vars g) (g_vars h)"])
       (auto intro: evolves_trans gate_step_evolves)
  then obtain gf where gf: "evolves paged (g_vars g) (g_vars gf)" "gate_step env gf = run_gate env g"
    by blast
  show ?thesis using r
  proof
    assume "run_gate env g = AllSettled v'"
    then show ?thesis using gf by (simp add: gate_step_AllSettled)
  next
    assume "run_gate env g = TaskRejected error v'"
    then show ?thesis using gf gate_step_Rejected_evolves[of env gf error v' paged]
      by (auto intro: evolves_trans)
  qed
qed

subsection \<open>Iterations and loops\<close>


definition iter_all :: "(('a, 'r, 'x) vars \<Rightarrow> bool) \<Rightarrow> ('s, 'a, 'r, 'x) iteration \<Rightarrow> bool" where
  "iter_all P it = (case it of Continue s v \<Rightarrow> P v | Abort error v \<Rightarrow> P v | Stuck \<Rightarrow> True)"

lemma iter_all_simps [simp]:
  "iter_all P (Continue s v) = P v" "iter_all P (Abort error v) = P v" "iter_all P Stuck = True"
  by (simp_all add: iter_all_def)

definition ends_in :: "('a, 'r, 'x) outcome \<Rightarrow> ('a, 'r, 'x) vars \<Rightarrow> bool" where
  "ends_in out v \<longleftrightarrow> out = result_of v \<or> (\<exists>error. out = Threw error (v_log v))"

lemma await_call_evolves:
  assumes "evolves paged v0 v" "plain_call paged v e"
    and "\<And>v'. evolves paged v0 v' \<Longrightarrow> iter_all (evolves paged v0) (k v')"
  shows "iter_all (evolves paged v0) (await_call e r v k)"
proof -
  have "evolves paged v0 (log_event e v)"
    using assms(1,2) by (meson evolves_move move.call)
  then show ?thesis using assms(3) by (cases r) (simp_all add: await_call_def)
qed

lemma await_all_evolves:
  assumes "evolves paged v0 v"
    and "\<And>v'. evolves paged v0 v' \<Longrightarrow> iter_all (evolves paged v0) (k v')"
  shows "iter_all (evolves paged v0) (await_all env batch v k)"
proof -
  let ?g = "\<lparr>g_queue = zip [0..<length batch] batch, g_active = [], g_vars = v\<lparr>v_batchProcessed := 0\<rparr>\<rparr>"
  have start: "evolves paged v0 (g_vars ?g)"
    using assms(1) move.reset[of paged v] by (simp add: evolves_move)
  show ?thesis
  proof (cases "run_gate env ?g")
    case (AllSettled v')
    then have "evolves paged v0 v'" using run_gate_evolves[of env ?g v' _ paged] start
      by (auto intro: evolves_trans)
    then show ?thesis using AllSettled assms by (simp add: await_all_def)
  next
    case (TaskRejected error v')
    then have "evolves paged v0 v'" using run_gate_evolves[of env ?g v' error paged] start
      by (auto intro: evolves_trans)
    then show ?thesis using TaskRejected assms(1) by (simp add: await_all_def)
  qed (use assms(1) in \<open>simp_all add: await_all_def\<close>)
qed

lemma emit_state_evolves:
  assumes "evolves paged v0 v"
    and "\<And>v'. evolves paged v0 v' \<Longrightarrow> iter_all (evolves paged v0) (k v')"
  shows "iter_all (evolves paged v0) (emit_state options v k)"
  unfolding emit_state_def using assms by (intro await_call_evolves) simp_all

lemma sync_totalPages_evolves:
  assumes "evolves True v0 v"
    and "\<And>n v'. evolves True v0 v' \<Longrightarrow> iter_all (evolves True v0) (k n v')"
  shows "iter_all (evolves True v0) (sync_totalPages options pageData pages v k)"
proof (cases "pd_totalPages pageData")
  case None
  then show ?thesis using assms by (simp add: sync_totalPages_def)
next
  case (Some n)
  have "evolves True v0 (v\<lparr>v_currentState := (v_currentState v)\<lparr>totalPages := Some n\<rparr>\<rparr>)"
    using assms(1) move.set_pages[of True v n] by (simp add: evolves_move)
  then show ?thesis using Some assms
    by (auto simp: sync_totalPages_def intro!: emit_state_evolves)
qed

lemma refresh_evolves: "evolves paged v0 v \<Longrightarrow> evolves paged v0 (refresh_state clk v)"
  by (meson evolves_move move.refresh)

lemma batch_iteration_evolves:
  "iter_all (evolves False v) (batch_iteration options processFunction w items i v)"
  unfolding batch_iteration_def Let_def
  by (intro await_call_evolves await_all_evolves) (simp_all add: refresh_evolves)

lemma process_page_evolves:
  assumes "evolves True v0 v"
  shows "iter_all (evolves True v0) (process_page options processFunction w page pageData pages v)"
proof (cases "length (page_items pageData) = 0")
  case True
  let ?l = "log_event (ConsoleLog (''No items found on page '' @ string_of_int page @ ''.'')) v"
  have "evolves True v0 ?l"
    using assms move.call[of True v "ConsoleLog (''No items found on page '' @ string_of_int page @ ''.'')"]
    by (simp add: evolves_move)
  then have "evolves True v0 (?l\<lparr>v_currentState := (v_currentState ?l)\<lparr>currentPage := Some (page + 1)\<rparr>\<rparr>)"
    using move.set_page[of True ?l "page + 1"] by (simp add: evolves_move)
  then have "iter_all (evolves True v0) (emit_state options
      (?l\<lparr>v_currentState := (v_currentState v)\<lparr>currentPage := Some (page + 1)\<rparr>\<rparr>)
      (Continue (page + 1, pages)))"
    by (intro emit_state_evolves) (simp_all add: log_event_def)
  then show ?thesis using True by (simp add: process_page_def)
next
  case False
  have "evolves True v0 ((refresh_state (now w) v3)
                     \<lparr>v_currentState := (v_currentState (refresh_state (now w) v3))
                        \<lparr>currentPage := Some (page + 1)\<rparr>\<rparr>)" if "evolves True v0 v3" for v3
    using that move.set_page[of True "refresh_state (now w) v3" "page + 1"]
    by (meson evolves_move refresh_evolves)
  then have "iter_all (evolves True v0)
     (await_all (page_env options processFunction w (page_items pageData)) (page_items pageData) v
             (\<lambda>v. emit_state options
                  ((refresh_state (now w) v)
                     \<lparr>v_currentState := (v_currentState (refresh_state (now w) v))
                        \<lparr>currentPage := Some (page + 1)\<rparr>\<rparr>)
             (\<lambda>v. await_call
                    (OnPageComplete (page + 1 - 1) pages (int (v_batchProcessed v))
                       (v_totalProcessed v) (v_currentState v))
                    (p_onPageComplete options (page + 1 - 1) pages (int (v_batchProcessed v))
                       (v_totalProcessed v) (v_currentState v)) v
                  (Continue (page + 1, pages)))))"
    using assms by (intro await_all_evolves emit_state_evolves await_call_evolves) simp_all
  then show ?thesis using False by (simp add: process_page_def Let_def)
qed

lemma page_iteration_evolves:
  "iter_all (evolves True v) (page_iteration options fetchPageFunction processFunction w page pages v)"
  unfolding page_iteration_def
proof (intro await_call_evolves, goal_cases)
  case (3 v1)
  have f: "evolves True v (log_event (FetchPageCall page (v_currentState v1)) v1)"
    using 3 move.call[of True v1 "FetchPageCall page (v_currentState v1)"]
    by (simp add: evolves_move)
  show ?case
  proof (cases "fetchPageFunction page (v_currentState v1)")
    case (Inl error)
    then show ?thesis using f by simp
  next
    case (Inr pageData)
    have "iter_all (evolves True v)
      (sync_totalPages options pageData pages (log_event (FetchPageCall page (v_currentState v1)) v1)
         (process_page options processFunction w page pageData))"
      using f by (intro sync_totalPages_evolves process_page_evolves)
    then show ?thesis using Inr by simp
  qed
qed simp_all

lemma batches_from_evolves:
  "batches_from options processFunction w items i v = Some out \<Longrightarrow>
   \<exists>v'. evolves False v v' \<and> ends_in out v'"
proof (induction rule: batches_from.raw_induct[rotated 1, consumes 1, case_names step])
  case (step batches_from options processFunction w items i v out)
  note 1 = step
  show ?case
  proof (cases "i < length items")
    case False
    then have "out = result_of v" using 1(2) by simp
    then have "evolves False v v \<and> ends_in out v" by (simp add: ends_in_def)
    then show ?thesis by blast
  next
    case True
    have ev: "iter_all (evolves False v) (batch_iteration options processFunction w items i v)"
      by (rule batch_iteration_evolves)
    show ?thesis
    proof (cases "batch_iteration options processFunction w items i v")
      case (Continue u v')
      have bnd: "batches_from options processFunction w items (i + with_default 20 (batchSize options)) v' = Some out"
        using 1(2) True Continue by simp
      from 1(1)[OF bnd] obtain v'' where "evolves False v' v''" "ends_in out v''"
        by blast
      then show ?thesis using ev Continue by (auto intro: evolves_trans)
    next
      case (Abort error v')
      then show ?thesis using 1(2) True ev by (auto simp: ends_in_def)
    next
      case Stuck
      then show ?thesis using 1(2) True by simp
    qed
  qed
qed

lemma pages_from_evolves:
  "pages_from options fetchPageFunction processFunction w page pages v = Some out \<Longrightarrow>
   \<exists>v'. evolves True v v' \<and> ends_in out v'"
proof (induction rule: pages_from.raw_induct[rotated 1, consumes 1, case_names step])
  case (step pages_from options fetchPageFunction processFunction w page pages v out)
  note 1 = step
  show ?case
  proof (cases "page \<le> pages")
    case False
    then have "out = result_of v" using 1(2) by simp
    then have "evolves True v v \<and> ends_in out v" by (simp add: ends_in_def)
    then show ?thesis by blast
  next
    case True
    have ev: "iter_all (evolves True v)
        (page_iteration options fetchPageFunction processFunction w page pages v)"
      by (rule page_iteration_evolves)
    show ?thesis
    proof (cases "page_iteration options fetchPageFunction processFunction w page pages v")
      case (Continue u v')
      obtain page' pages' where u: "u = (page', pages')" by (cases u)
      have bnd: "pages_from options fetchPageFunction processFunction w page' pages' v' = Some out"
        using 1(2) True Continue u by simp
      from 1(1)[OF bnd] obtain v'' where "evolves True v' v''" "ends_in out v''"
        by blast
      then show ?thesis using ev Continue by (auto intro: evolves_trans)
    next
      case (Abort error v')
      then show ?thesis using 1(2) True ev by (auto simp: ends_in_def)
    next
      case Stuck
      then show ?thesis using 1(2) True by simp
    qed
  qed
qed

subsection \<open>Runs of the two drivers\<close>

fun log_of :: "('a, 'r, 'x) outcome \<Rightarrow> ('a, 'r, 'x) event list" where
  "log_of (Returned r l) = l"
| "log_of (Threw error l) = l"

definition array_start :: "('a, 'r, 'x) BatchOptions \<Rightarrow> ('a, 'r, 'x) vars" where
  "array_start options =
     initial_vars (with_default empty_State (initialState options))
       (with_default empty_State (initialState options))"

definition paged_start :: "('a, 'r, 'x) PaginatedBatchOptions \<Rightarrow> ('a, 'r, 'x) vars" where
  "paged_start options =
     (let init = with_default empty_State (p_initialState options);
          v = initial_vars init init
      in v\<lparr>v_currentState := init
            \<lparr>currentPage := Some (or_default (currentPage init) (with_default 1 (p_initialPage options))),
             totalPages := Some (or_default (totalPages init) 1),
             totalProcessed := Some (v_totalProcessed v),
             totalFailed := Some (v_totalFailed v)\<rparr>\<rparr>)"

lemma processBatches_start:
  "processBatches items processFunction options w =
     batches_from options processFunction w items 0 (array_start options)"
  by (simp add: processBatches_def array_start_def Let_def)

lemma processPaginatedBatches_start:
  "processPaginatedBatches fetchPageFunction processFunction options w =
     pages_from options fetchPageFunction processFunction w
       (or_default (currentPage (with_default empty_State (p_initialState options)))
          (with_default 1 (p_initialPage options)))
       (or_default (totalPages (with_default empty_State (p_initialState options))) 1)
       (paged_start options)"
  by (simp add: processPaginatedBatches_def paged_start_def Let_def)

lemma ends_in_log: "ends_in out v \<Longrightarrow> log_of out = v_log v"
  by (auto simp: ends_in_def result_of_def)

lemma processBatches_evolves:
  assumes "processBatches items processFunction options w = Some out"
  obtains v where "evolves False (array_start options) v" "ends_in out v"
  using assms batches_from_evolves unfolding processBatches_start by blast

lemma processPaginatedBatches_evolves:
  assumes "processPaginatedBatches fetchPageFunction processFunction options w = Some out"
  obtains v where "evolves True (paged_start options) v" "ends_in out v"
  using assms pages_from_evolves unfolding processPaginatedBatches_start by blast

subsection \<open>Counters and item callbacks\<close>

fun is_success :: "('a, 'r, 'x) event \<Rightarrow> bool" where
  "is_success (OnItemSuccess item r tp s) = True"
| "is_success _ = False"

fun is_failure :: "('a, 'r, 'x) event \<Rightarrow> bool" where
  "is_failure (OnItemError item error tf s) = True"
| "is_failure _ = False"

definition successes :: "('a, 'r, 'x) event list \<Rightarrow> nat" where
  "successes l = length (filter is_success l)"

definition failures :: "('a, 'r, 'x) event list \<Rightarrow> nat" where
  "failures l = length (filter is_failure l)"

lemma successes_simps [simp]:
  "successes [] = 0" "successes (l @ l') = successes l + successes l'"
  "successes (e # l) = (if is_success e then 1 else 0) + successes l"
  by (simp_all add: successes_def)

lemma failures_simps [simp]:
  "failures [] = 0" "failures (l @ l') = failures l + failures l'"
  "failures (e # l) = (if is_failure e then 1 else 0) + failures l"
  by (simp_all add: failures_def)

lemma plain_call_not_item: "plain_call paged v e \<Longrightarrow> \<not> is_success e \<and> \<not> is_failure e"
  by (cases e) auto

lemma move_counters:
  assumes "move paged v v'"
  shows "v_totalProcessed v' - int (successes (v_log v')) = v_totalProcessed v - int (successes (v_log v))"
    and "v_totalFailed v' - int (failures (v_log v')) = v_totalFailed v - int (failures (v_log v))"
  using assms
  by (induction rule: move.induct)
     (auto simp: log_event_def refresh_state_def dest: plain_call_not_item)

lemma evolves_counters:
  assumes "evolves paged v v'"
  shows "v_totalProcessed v' - int (successes (v_log v')) = v_totalProcessed v - int (successes (v_log v))
       \<and> v_totalFailed v' - int (failures (v_log v')) = v_totalFailed v - int (failures (v_log v))"
  using assms by (induction rule: evolves_induct) (simp_all add: move_counters)

lemma move_monotone:
  assumes "move paged v v'"
  shows "v_totalProcessed v \<le> v_totalProcessed v' \<and> v_totalFailed v \<le> v_totalFailed v'
       \<and> (\<exists>new. v_log v' = v_log v @ new)"
  using assms by (induction rule: move.induct) (auto simp: log_event_def refresh_state_def)

lemma evolves_monotone:
  assumes "evolves paged v v'"
  shows "v_totalProcessed v \<le> v_totalProcessed v' \<and> v_totalFailed v \<le> v_totalFailed v'
       \<and> (\<exists>new. v_log v' = v_log v @ new)"
  using assms
proof (induction rule: evolves_induct)
  case base
  show ?case by simp
next
  case (step u u')
  then show ?case using move_monotone[of paged u u'] by auto
qed

subsection \<open>The fields a snapshot replacement keeps\<close>

text \<open>
  \<open>kept paged s0 s\<close>: the state \<open>s\<close> has the fields of \<open>s0\<close> that the driver at hand
  never writes.
\<close>

definition kept :: "bool \<Rightarrow> 'x State \<Rightarrow> 'x State \<Rightarrow> bool" where
  "kept paged s0 s \<longleftrightarrow>
     extra s = extra s0 \<and> startTime s = startTime s0 \<and> startedAt s = startedAt s0 \<and>
     (paged \<or> (currentPage s = currentPage s0 \<and> totalPages s = totalPages s0))"

fun event_state :: "('a, 'r, 'x) event \<Rightarrow> 'x State option" where
  "event_state (OnBatchStart bn tb batch s) = Some s"
| "event_state (OnBatchComplete bn tb batch tp tf s) = Some s"
| "event_state (OnItemSuccess item r tp s) = Some s"
| "event_state (OnItemError item error tf s) = Some s"
| "event_state (OnStateUpdate s bn tb) = Some s"
| "event_state (OnPageStart p n s) = Some s"
| "event_state (OnPageComplete p n pp tp s) = Some s"
| "event_state (ProcessCall item index s) = Some s"
| "event_state (FetchPageCall p s) = Some s"
| "event_state (ConsoleLog m) = None"

definition event_kept :: "bool \<Rightarrow> 'x State \<Rightarrow> ('a, 'r, 'x) event \<Rightarrow> bool" where
  "event_kept paged s0 e = (case event_state e of None \<Rightarrow> True | Some s \<Rightarrow> kept paged s0 s)"

definition all_kept :: "bool \<Rightarrow> 'x State \<Rightarrow> ('a, 'r, 'x) vars \<Rightarrow> bool" where
  "all_kept paged s0 v \<longleftrightarrow> kept paged s0 (v_currentState v) \<and> list_all (event_kept paged s0) (v_log v)"

lemma plain_call_state: "plain_call paged v e \<Longrightarrow> event_state e = Some s \<Longrightarrow> s = v_currentState v"
  by (cases e) auto

lemma move_kept: "move paged v v' \<Longrightarrow> all_kept paged s0 v \<Longrightarrow> all_kept paged s0 v'"
proof (induction rule: move.induct)
  case (call v e)
  then show ?case
    by (cases "event_state e")
       (auto simp: all_kept_def event_kept_def log_event_def dest: plain_call_state)
qed (auto simp: all_kept_def event_kept_def log_event_def refresh_state_def kept_def)

lemma evolves_kept: "evolves paged v v' \<Longrightarrow> all_kept paged s0 v \<Longrightarrow> all_kept paged s0 v'"
  by (induction rule: evolves_induct) (auto intro: move_kept)

lemma array_start_kept:
  "all_kept False (with_default empty_State (initialState options)) (array_start options)"
  by (simp add: all_kept_def array_start_def initial_vars_def kept_def)

lemma paged_start_kept:
  "all_kept True (with_default empty_State (p_initialState options)) (paged_start options)"
  by (simp add: all_kept_def paged_start_def initial_vars_def kept_def Let_def)

subsection \<open>Runs whose callbacks return normally\<close>

definition quiet_env :: "('a, 'r, 'x) item_env \<Rightarrow> bool" where
  "quiet_env env \<longleftrightarrow>
     (\<forall>item r tp s. ie_onItemSuccess env item r tp s = None) \<and>
     (\<forall>item error tf s. ie_onItemError env item error tf s = None) \<and>
     (\<forall>s bn tb. ie_onStateUpdate env s bn tb = None)"

fun clean :: "'r phase \<Rightarrow> bool" where
  "clean (AwaitProcess outcome) = True"
| "clean (AwaitItemSuccess r c) = (c = None)"
| "clean (AwaitStateUpdate r c) = (c = None)"
| "clean (AwaitItemError c) = (c = None)"

fun resolving_weight :: "'r phase \<Rightarrow> int" where
  "resolving_weight (AwaitProcess (Inr r)) = 1"
| "resolving_weight _ = 0"

fun rejecting_weight :: "'r phase \<Rightarrow> int" where
  "rejecting_weight (AwaitProcess (Inl error)) = 1"
| "rejecting_weight _ = 0"

fun is_process_call :: "('a, 'r, 'x) event \<Rightarrow> bool" where
  "is_process_call (ProcessCall item index s) = True"
| "is_process_call _ = False"

fun call_resolves :: "('a \<Rightarrow> nat \<Rightarrow> 'x State \<Rightarrow> thrown + 'r) \<Rightarrow> ('a, 'r, 'x) event \<Rightarrow> bool" where
  "call_resolves f (ProcessCall item index s) = (case f item index s of Inr r \<Rightarrow> True | Inl error \<Rightarrow> False)"
| "call_resolves f _ = False"

fun call_rejects :: "('a \<Rightarrow> nat \<Rightarrow> 'x State \<Rightarrow> thrown + 'r) \<Rightarrow> ('a, 'r, 'x) event \<Rightarrow> bool" where
  "call_rejects f (ProcessCall item index s) = (case f item index s of Inr r \<Rightarrow> False | Inl error \<Rightarrow> True)"
| "call_rejects f _ = False"

definition calls :: "('a, 'r, 'x) event list \<Rightarrow> nat" where
  "calls l = length (filter is_process_call l)"

definition calls_resolving :: "('a \<Rightarrow> nat \<Rightarrow> 'x State \<Rightarrow> thrown + 'r) \<Rightarrow> ('a, 'r, 'x) event list \<Rightarrow> nat" where
  "calls_resolving f l = length (filter (call_resolves f) l)"

definition calls_rejecting :: "('a \<Rightarrow> nat \<Rightarrow> 'x State \<Rightarrow> thrown + 'r) \<Rightarrow> ('a, 'r, 'x) event list \<Rightarrow> nat" where
  "calls_rejecting f l = length (filter (call_rejects f) l)"

lemma calls_simps [simp]:
  "calls [] = 0" "calls (l @ l') = calls l + calls l'"
  "calls (e # l) = (if is_process_call e then 1 else 0) + calls l"
  by (simp_all add: calls_def)

lemma calls_resolving_simps [simp]:
  "calls_resolving f [] = 0" "calls_resolving f (l @ l') = calls_resolving f l + calls_resolving f l'"
  "calls_resolving f (e # l) = (if call_resolves f e then 1 else 0) + calls_resolving f l"
  by (simp_all add: calls_resolving_def)

lemma calls_rejecting_simps [simp]:
  "calls_rejecting f [] = 0" "calls_rejecting f (l @ l') = calls_rejecting f l + calls_rejecting f l'"
  "calls_rejecting f (e # l) = (if call_rejects f e then 1 else 0) + calls_rejecting f l"
  by (simp_all add: calls_rejecting_def)

lemma calls_split: "calls l = calls_resolving f l + calls_rejecting f l"
proof (induction l)
  case Nil
  show ?case by simp
next
  case (Cons e l)
  then show ?case by (cases e) (auto split: sum.splits)
qed

text \<open>
  The tally of a gate: item callbacks made so far, plus the tasks whose
  \<^verbatim>\<open>processFunction\<close> promise has settled that way and that have not yet resumed, minus
  the calls of \<^verbatim>\<open>processFunction\<close> with that outcome. Scheduling steps do not change it
  when the callbacks return normally.
\<close>

definition resolved_tally :: "('a, 'r, 'x) item_env \<Rightarrow> ('a, 'r, 'x) gate \<Rightarrow> int" where
  "resolved_tally env g =
     int (successes (v_log (g_vars g))) + sum_list (map (\<lambda>(item, ph). resolving_weight ph) (g_active g))
       - int (calls_resolving (ie_process env) (v_log (g_vars g)))"

definition rejected_tally :: "('a, 'r, 'x) item_env \<Rightarrow> ('a, 'r, 'x) gate \<Rightarrow> int" where
  "rejected_tally env g =
     int (failures (v_log (g_vars g))) + sum_list (map (\<lambda>(item, ph). rejecting_weight ph) (g_active g))
       - int (calls_rejecting (ie_process env) (v_log (g_vars g)))"

definition submitted :: "('a, 'r, 'x) gate \<Rightarrow> nat" where
  "submitted g = calls (v_log (g_vars g)) + length (g_queue g)"

definition all_clean :: "('a, 'r, 'x) gate \<Rightarrow> bool" where
  "all_clean g \<longleftrightarrow> list_all (\<lambda>(item, ph). clean ph) (g_active g)"

lemma sum_list_update_int:
  fixes f :: "'b \<Rightarrow> int"
  shows "k < length xs \<Longrightarrow> sum_list (map f (xs[k := y])) = sum_list (map f xs) - f (xs ! k) + f y"
proof (induction xs arbitrary: k)
  case Nil
  then show ?case by simp
next
  case (Cons x xs)
  then show ?case by (cases k) auto
qed

lemma sum_list_remove_int:
  fixes f :: "'b \<Rightarrow> int"
  shows "k < length xs \<Longrightarrow>
    sum_list (map f (take k xs @ drop (Suc k) xs)) = sum_list (map f xs) - f (xs ! k)"
proof (induction xs arbitrary: k)
  case Nil
  then show ?case by simp
next
  case (Cons x xs)
  then show ?case by (cases k) auto
qed

lemma list_all_update: "list_all P xs \<Longrightarrow> P y \<Longrightarrow> list_all P (xs[k := y])"
  by (auto simp: list_all_iff dest: set_update_subset_insert[THEN subsetD])

lemma list_all_remove: "list_all P xs \<Longrightarrow> list_all P (take k xs @ drop (Suc k) xs)"
  by (auto simp: list_all_iff dest: in_set_takeD in_set_dropD)

text \<open>What resuming a task does to the log, when the callbacks return normally.\<close>

fun settled_weight :: "('r phase \<Rightarrow> int) \<Rightarrow> 'r phase + settled \<Rightarrow> int" where
  "settled_weight f (Inl ph) = f ph"
| "settled_weight f (Inr s) = 0"

lemma resume_quiet:
  assumes "quiet_env env" "clean ph" "resume env item ph v = (v', r)"
  shows "int (successes (v_log v')) + settled_weight resolving_weight r =
           int (successes (v_log v)) + resolving_weight ph"
    and "int (failures (v_log v')) + settled_weight rejecting_weight r =
           int (failures (v_log v)) + rejecting_weight ph"
    and "r \<noteq> Inr (Rejected error)"
    and "r = Inl ph' \<Longrightarrow> clean ph'"
  using assms
  by (induction env item ph v rule: resume.induct;
      auto simp: quiet_env_def catch_block_def log_event_def refresh_state_def Let_def
           split: if_splits)+

lemma resume_calls:
  assumes "resume env item ph v = (v', r)"
  shows "calls (v_log v') = calls (v_log v)"
    and "calls_resolving f (v_log v') = calls_resolving f (v_log v)"
    and "calls_rejecting f (v_log v') = calls_rejecting f (v_log v)"
  using assms
  by (induction env item ph v rule: resume.induct;
      auto simp: catch_block_def log_event_def refresh_state_def Let_def split: if_splits)+

fun item_level :: "('a, 'r, 'x) event \<Rightarrow> bool" where
  "item_level (ProcessCall item index s) = True"
| "item_level (OnItemSuccess item r tp s) = True"
| "item_level (OnItemError item error tf s) = True"
| "item_level (OnStateUpdate s bn tb) = True"
| "item_level _ = False"

definition driver_events :: "('a, 'r, 'x) event list \<Rightarrow> ('a, 'r, 'x) event list" where
  "driver_events l = filter (\<lambda>e. \<not> item_level e) l"

lemma driver_events_simps [simp]:
  "driver_events [] = []" "driver_events (l @ l') = driver_events l @ driver_events l'"
  "driver_events (e # l) = (if item_level e then driver_events l else e # driver_events l)"
  by (simp_all add: driver_events_def)

lemma resume_driver_events:
  "resume env item ph v = (v', r) \<Longrightarrow> driver_events (v_log v') = driver_events (v_log v)"
  by (induction env item ph v rule: resume.induct)
     (auto simp: catch_block_def log_event_def refresh_state_def Let_def split: if_splits)

lemma admit_log:
  "g_queue g = (index, item) # rest \<Longrightarrow>
   v_log (g_vars (admit env g)) = v_log (g_vars g) @ [ProcessCall item index (v_currentState (g_vars g))]
   \<and> g_queue (admit env g) = rest
   \<and> g_active (admit env g) =
       g_active g @ [(item, AwaitProcess (ie_process env item index (v_currentState (g_vars g))))]"
  by (simp add: admit_def Let_def log_event_def)

lemma vars_tick [simp]:
  "v_log (g_vars (tick g)) = v_log (g_vars g)"
  "v_currentState (g_vars (tick g)) = v_currentState (g_vars g)"
  "v_totalProcessed (g_vars (tick g)) = v_totalProcessed (g_vars g)"
  "v_totalFailed (g_vars (tick g)) = v_totalFailed (g_vars g)"
  "v_batchProcessed (g_vars (tick g)) = v_batchProcessed (g_vars g)"
  by (simp_all add: tick_def)

lemma gate_step_driver_events:
  assumes "gate_step env g = Next g'"
  shows "driver_events (v_log (g_vars g')) = driver_events (v_log (g_vars g))"
  using assms
proof (cases rule: gate_step_Next)
  case admitted
  then obtain index item rest where q: "g_queue (tick g) = (index, item) # rest"
    by (cases "g_queue g") (auto simp: can_admit_def)
  show ?thesis using admit_log[OF q, of env] admitted by simp
next
  case (resumed k)
  from resumed(2) show ?thesis
    by (elim resume_task_Next) (use resume_driver_events in fastforce)
qed

lemma gate_step_Rejected_driver_events:
  assumes "gate_step env g = TaskRejected error v'"
  shows "driver_events (v_log v') = driver_events (v_log (g_vars g))"
  using assms
  by (elim gate_step_Rejected resume_task_Rejected) (use resume_driver_events in fastforce)

lemma run_gate_driver_events:
  assumes "run_gate env g = AllSettled v' \<or> run_gate env g = TaskRejected error v'"
  shows "driver_events (v_log v') = driver_events (v_log (g_vars g))"
proof -
  have "\<exists>gf. driver_events (v_log (g_vars gf)) = driver_events (v_log (g_vars g)) \<and>
      gate_step env gf = run_gate env g \<and> (\<forall>g'. run_gate env g \<noteq> Next g')"
    by (rule run_gate_final[where I = "\<lambda>h. driver_events (v_log (g_vars h)) = driver_events (v_log (g_vars g))"])
       (simp_all add: gate_step_driver_events)
  then obtain gf where gf: "driver_events (v_log (g_vars gf)) = driver_events (v_log (g_vars g))"
    "gate_step env gf = run_gate env g" by blast
  from assms show ?thesis
  proof
    assume "run_gate env g = AllSettled v'"
    then show ?thesis using gf by (simp add: gate_step_AllSettled)
  next
    assume "run_gate env g = TaskRejected error v'"
    then show ?thesis using gf gate_step_Rejected_driver_events[of env gf error v'] by simp
  qed
qed

text \<open>A scheduling step of a gate whose callbacks return normally.\<close>

lemma gate_step_quiet:
  assumes "quiet_env env" "all_clean g" "gate_step env g = Next g'"
  shows "all_clean g' \<and> resolved_tally env g' = resolved_tally env g \<and>
         rejected_tally env g' = rejected_tally env g \<and> submitted g' = submitted g"
  using assms(3)
proof (cases rule: gate_step_Next)
  case admitted
  then obtain index item rest where q: "g_queue (tick g) = (index, item) # rest"
    by (cases "g_queue g") (auto simp: can_admit_def)
  note a = admit_log[OF q, of env]
  have "all_clean g'" using a assms(2) admitted by (simp add: all_clean_def)
  moreover have "resolved_tally env g' = resolved_tally env g"
    using a admitted
    by (cases "ie_process env item index (v_currentState (g_vars g))")
       (simp_all add: resolved_tally_def)
  moreover have "rejected_tally env g' = rejected_tally env g"
    using a admitted
    by (cases "ie_process env item index (v_currentState (g_vars g))")
       (simp_all add: rejected_tally_def)
  moreover have "submitted g' = submitted g"
    using a admitted q by (simp add: submitted_def)
  ultimately show ?thesis by simp
next
  case (resumed k)
  from resumed(2) obtain item ph v' r where
    ip: "g_active (tick g) ! k = (item, ph)" and
    r: "resume env item ph (g_vars (tick g)) = (v', r)" and
    v': "g_vars g' = v'" and qq: "g_queue g' = g_queue (tick g)" and
    act: "(\<exists>ph'. r = Inl ph' \<and> g_active g' = (g_active (tick g))[k := (item, ph')]) \<or>
          (r = Inr Fulfilled \<and> g_active g' = take k (g_active (tick g)) @ drop (Suc k) (g_active (tick g)))"
    by (rule resume_task_Next)
  have k: "k < length (g_active g)" by (rule resumed(1))
  have cl: "clean ph" using assms(2) ip k by (auto simp: all_clean_def list_all_length)
  note rq = resume_quiet[OF assms(1) cl r] and rc = resume_calls[OF r]
  from act show ?thesis
  proof
    assume "\<exists>ph'. r = Inl ph' \<and> g_active g' = (g_active (tick g))[k := (item, ph')]"
    then obtain ph' where ph': "r = Inl ph'" "g_active g' = (g_active g)[k := (item, ph')]" by auto
    have "all_clean g'" using assms(2) ph' rq(4)[OF ph'(1)] by (simp add: all_clean_def list_all_update)
    moreover have "resolved_tally env g' = resolved_tally env g"
      using rq(1) rc(2)[of "ie_process env"] ph' v' ip k
      by (simp add: resolved_tally_def sum_list_update_int)
    moreover have "rejected_tally env g' = rejected_tally env g"
      using rq(2) rc(3)[of "ie_process env"] ph' v' ip k
      by (simp add: rejected_tally_def sum_list_update_int)
    moreover have "submitted g' = submitted g" using rc(1) v' qq by (simp add: submitted_def)
    ultimately show ?thesis by simp
  next
    assume "r = Inr Fulfilled \<and> g_active g' = take k (g_active (tick g)) @ drop (Suc k) (g_active (tick g))"
    then have f: "r = Inr Fulfilled" "g_active g' = take k (g_active g) @ drop (Suc k) (g_active g)" by auto
    have "all_clean g'"
      using assms(2) list_all_remove[of "\<lambda>(item, ph). clean ph" "g_active g" k]
      unfolding all_clean_def f(2) by blast
    moreover have "resolved_tally env g' = resolved_tally env g"
      using rq(1) rc(2)[of "ie_process env"] f v' ip k
        sum_list_remove_int[of k "g_active g" "\<lambda>(item, ph). resolving_weight ph"]
      by (simp add: resolved_tally_def)
    moreover have "rejected_tally env g' = rejected_tally env g"
      using rq(2) rc(3)[of "ie_process env"] f v' ip k
        sum_list_remove_int[of k "g_active g" "\<lambda>(item, ph). rejecting_weight ph"]
      by (simp add: rejected_tally_def)
    moreover have "submitted g' = submitted g" using rc(1) v' qq by (simp add: submitted_def)
    ultimately show ?thesis by simp
  qed
qed

lemma gate_step_quiet_not_Rejected:
  assumes "quiet_env env" "all_clean g"
  shows "gate_step env g \<noteq> TaskRejected error v'"
proof
  assume "gate_step env g = TaskRejected error v'"
  then obtain k item ph where k: "k < length (g_active g)"
    and ip: "g_active (tick g) ! k = (item, ph)"
    and r: "resume env item ph (g_vars (tick g)) = (v', Inr (Rejected error))"
    by (elim gate_step_Rejected resume_task_Rejected)
  have "clean ph" using assms(2) ip k by (auto simp: all_clean_def list_all_length)
  from resume_quiet(3)[OF assms(1) this r, of error] show False by simp
qed

text \<open>
  With callbacks that return normally the gate settles every task, unless its limit is 0
  and no task is ever admitted: every item was handed to \<^verbatim>\<open>processFunction\<close> once, and each call was answered by
  \<^verbatim>\<open>onItemSuccess\<close> or by \<^verbatim>\<open>onItemError\<close> according to its outcome.
\<close>

lemma run_gate_quiet:
  assumes "quiet_env env"
    and "0 < ie_limit env \<or> run_gate env \<lparr>g_queue = q, g_active = [], g_vars = v\<rparr> \<noteq> NeverSettles"
  shows "\<exists>v'. run_gate env \<lparr>g_queue = q, g_active = [], g_vars = v\<rparr> = AllSettled v' \<and>
     int (successes (v_log v')) - int (calls_resolving (ie_process env) (v_log v')) =
       int (successes (v_log v)) - int (calls_resolving (ie_process env) (v_log v)) \<and>
     int (failures (v_log v')) - int (calls_rejecting (ie_process env) (v_log v')) =
       int (failures (v_log v)) - int (calls_rejecting (ie_process env) (v_log v)) \<and>
     calls (v_log v') = calls (v_log v) + length q"
proof -
  let ?g = "\<lparr>g_queue = q, g_active = [], g_vars = v\<rparr>"
  let ?I = "\<lambda>h. all_clean h \<and> resolved_tally env h = resolved_tally env ?g \<and>
         rejected_tally env h = rejected_tally env ?g \<and> submitted h = submitted ?g"
  have "\<exists>gf. ?I gf \<and> gate_step env gf = run_gate env ?g \<and> (\<forall>g'. run_gate env ?g \<noteq> Next g')"
  proof (rule run_gate_final[where I = ?I])
    show "?I ?g" by (simp add: all_clean_def)
  next
    fix g g' assume "?I g" "gate_step env g = Next g'"
    then show "?I g'" using gate_step_quiet[OF assms(1), of g g'] by simp
  qed
  then obtain gf where gf: "?I gf" "gate_step env gf = run_gate env ?g"
    "\<forall>g'. run_gate env ?g \<noteq> Next g'" by blast
  show ?thesis
  proof (cases "run_gate env ?g")
    case (Next g')
    then show ?thesis using gf(3) by simp
  next
    case (AllSettled v')
    then have e: "g_queue gf = []" "g_active gf = []" "v' = g_vars gf"
      using gf(2) by (simp_all add: gate_step_AllSettled)
    then show ?thesis using gf(1) AllSettled
      by (simp add: resolved_tally_def rejected_tally_def submitted_def)
  next
    case (TaskRejected error v')
    then show ?thesis using gf(1,2) gate_step_quiet_not_Rejected[OF assms(1), of gf error v'] by simp
  next
    case NeverSettles
    then show ?thesis using gf(2) assms(2) by (auto simp: gate_step_NeverSettles)
  qed
qed

subsection \<open>The array driver with callbacks that return normally\<close>

definition quiet :: "('a, 'r, 'x) BatchOptions \<Rightarrow> bool" where
  "quiet options \<longleftrightarrow>
     (\<forall>bn tb batch s. onBatchStart options bn tb batch s = None) \<and>
     (\<forall>bn tb batch tp tf s. onBatchComplete options bn tb batch tp tf s = None) \<and>
     (\<forall>item r tp s. onItemSuccess options item r tp s = None) \<and>
     (\<forall>item error tf s. onItemError options item error tf s = None) \<and>
     (\<forall>s bn tb. onStateUpdate options s bn tb = None)"

lemma quiet_batch_env:
  "quiet options \<Longrightarrow> quiet_env (batch_env options processFunction w batch bn tb)"
  by (simp add: quiet_def quiet_env_def batch_env_def)

lemma batch_env_simps [simp]:
  "ie_process (batch_env options processFunction w batch bn tb) = processFunction"
  "ie_limit (batch_env options processFunction w batch bn tb) = with_default 10 (concurrencyLimit options)"
  "ie_length (batch_env options processFunction w batch bn tb) = length batch"
  "ie_stateUpdateInterval (batch_env options processFunction w batch bn tb) =
     with_default 5 (stateUpdateInterval options)"
  by (simp_all add: batch_env_def)

lemma length_slice [simp]: "length (slice xs i (i + n)) = min n (length xs - i)"
  by (simp add: slice_def)

lemma log_event_simps [simp]:
  "v_log (log_event e v) = v_log v @ [e]"
  "v_currentState (log_event e v) = v_currentState v"
  "v_totalProcessed (log_event e v) = v_totalProcessed v"
  "v_totalFailed (log_event e v) = v_totalFailed v"
  "v_batchProcessed (log_event e v) = v_batchProcessed v"
  "v_clock (log_event e v) = v_clock v"
  by (simp_all add: log_event_def)

lemma refresh_state_simps [simp]:
  "v_log (refresh_state clk v) = v_log v"
  "v_totalProcessed (refresh_state clk v) = v_totalProcessed v"
  "v_totalFailed (refresh_state clk v) = v_totalFailed v"
  "v_batchProcessed (refresh_state clk v) = v_batchProcessed v"
  by (simp_all add: refresh_state_def)

lemma batch_iteration_quiet:
  assumes "quiet options"
    and "0 < with_default 10 (concurrencyLimit options)"
  shows "\<exists>v'. batch_iteration options processFunction w items i v = Continue () v' \<and>
     int (successes (v_log v')) - int (calls_resolving processFunction (v_log v')) =
       int (successes (v_log v)) - int (calls_resolving processFunction (v_log v)) \<and>
     int (failures (v_log v')) - int (calls_rejecting processFunction (v_log v')) =
       int (failures (v_log v)) - int (calls_rejecting processFunction (v_log v)) \<and>
     calls (v_log v') = calls (v_log v) + min (with_default 20 (batchSize options)) (length items - i)"
proof -
  let ?size = "with_default 20 (batchSize options)"
  let ?tb = "math_ceil_div (length items) ?size"
  let ?batch = "slice items i (i + ?size)"
  let ?bn = "math_floor_div_plus1 i ?size"
  let ?env = "batch_env options processFunction w ?batch ?bn ?tb"
  let ?v1 = "log_event (OnBatchStart ?bn ?tb ?batch (v_currentState v)) v"
  have q: "quiet_env ?env" by (rule quiet_batch_env[OF assms(1)])
  have l: "0 < ie_limit ?env \<or>
      run_gate ?env \<lparr>g_queue = zip [0..<length ?batch] ?batch, g_active = [],
        g_vars = ?v1\<lparr>v_batchProcessed := 0\<rparr>\<rparr> \<noteq> NeverSettles"
    using assms(2) by simp
  from run_gate_quiet[OF q l]
  obtain v2 where v2:
    "run_gate ?env \<lparr>g_queue = zip [0..<length ?batch] ?batch, g_active = [],
        g_vars = ?v1\<lparr>v_batchProcessed := 0\<rparr>\<rparr> = AllSettled v2"
    "int (successes (v_log v2)) - int (calls_resolving processFunction (v_log v2)) =
       int (successes (v_log v)) - int (calls_resolving processFunction (v_log v))"
    "int (failures (v_log v2)) - int (calls_rejecting processFunction (v_log v2)) =
       int (failures (v_log v)) - int (calls_rejecting processFunction (v_log v))"
    "calls (v_log v2) = calls (v_log v) + min ?size (length items - i)"
    by (auto simp: log_event_def)
  let ?v3 = "refresh_state (now w) v2"
  let ?v4 = "log_event (OnStateUpdate (v_currentState ?v3) (Some ?bn) (Some ?tb)) ?v3"
  let ?v5 = "log_event (OnBatchComplete ?bn ?tb ?batch (v_totalProcessed ?v4) (v_totalFailed ?v4)
                (v_currentState ?v4)) ?v4"
  have "batch_iteration options processFunction w items i v = Continue () ?v5"
    using assms v2(1) by (simp add: batch_iteration_def Let_def await_call_def await_all_def quiet_def)
  moreover have "int (successes (v_log ?v5)) - int (calls_resolving processFunction (v_log ?v5)) =
       int (successes (v_log v)) - int (calls_resolving processFunction (v_log v))"
    using v2(2) by simp
  moreover have "int (failures (v_log ?v5)) - int (calls_rejecting processFunction (v_log ?v5)) =
       int (failures (v_log v)) - int (calls_rejecting processFunction (v_log v))"
    using v2(3) by simp
  moreover have "calls (v_log ?v5) = calls (v_log v) + min ?size (length items - i)"
    using v2(4) by simp
  ultimately show ?thesis by blast
qed

lemma batches_from_quiet:
  assumes "quiet options" "0 < with_default 10 (concurrencyLimit options)"
    "0 < with_default 20 (batchSize options)"
  shows "\<exists>v'. batches_from options processFunction w items i v = Some (result_of v') \<and>
     int (successes (v_log v')) - int (calls_resolving processFunction (v_log v')) =
       int (successes (v_log v)) - int (calls_resolving processFunction (v_log v)) \<and>
     int (failures (v_log v')) - int (calls_rejecting processFunction (v_log v')) =
       int (failures (v_log v)) - int (calls_rejecting processFunction (v_log v)) \<and>
     calls (v_log v') = calls (v_log v) + (length items - i)"
proof (induction "length items - i" arbitrary: i v rule: less_induct)
  case less
  let ?size = "with_default 20 (batchSize options)"
  show ?case
  proof (cases "i < length items")
    case False
    then have "batches_from options processFunction w items i v = Some (result_of v)"
      by (simp add: batches_from_done)
    then show ?thesis using False by auto
  next
    case True
    from batch_iteration_quiet[OF assms(1,2), of processFunction w items i v]
    obtain v1 where v1:
      "batch_iteration options processFunction w items i v = Continue () v1"
      "int (successes (v_log v1)) - int (calls_resolving processFunction (v_log v1)) =
         int (successes (v_log v)) - int (calls_resolving processFunction (v_log v))"
      "int (failures (v_log v1)) - int (calls_rejecting processFunction (v_log v1)) =
         int (failures (v_log v)) - int (calls_rejecting processFunction (v_log v))"
      "calls (v_log v1) = calls (v_log v) + min ?size (length items - i)"
      by blast
    have "length items - (i + ?size) < length items - i" using True assms(3) by linarith
    from less[OF this, of v1] obtain v' where v':
      "batches_from options processFunction w items (i + ?size) v1 = Some (result_of v')"
      "int (successes (v_log v')) - int (calls_resolving processFunction (v_log v')) =
         int (successes (v_log v1)) - int (calls_resolving processFunction (v_log v1))"
      "int (failures (v_log v')) - int (calls_rejecting processFunction (v_log v')) =
         int (failures (v_log v1)) - int (calls_rejecting processFunction (v_log v1))"
      "calls (v_log v') = calls (v_log v1) + (length items - (i + ?size))"
      by blast
    have "batches_from options processFunction w items i v = Some (result_of v')"
      using True v1(1) v'(1) by (subst batches_from.simps) simp
    moreover have "calls (v_log v') = calls (v_log v) + (length items - i)"
      using v'(4) v1(4) by arith
    ultimately show ?thesis using v1(2,3) v'(2,3) by auto
  qed
qed

text \<open>
  The whole run: it returns; every item was handed to \<^verbatim>\<open>processFunction\<close> once;
  \<^verbatim>\<open>processed\<close> grew by the calls that resolved and \<^verbatim>\<open>failed\<close> by the calls that
  rejected; each was answered by its callback.
\<close>

lemma processBatches_quiet:
  assumes "quiet options" "0 < with_default 10 (concurrencyLimit options)"
    "0 < with_default 20 (batchSize options)"
  shows "\<exists>r l. processBatches items processFunction options w = Some (Returned r l) \<and>
     processed r = or_default (totalProcessed (with_default empty_State (initialState options))) 0
        + int (calls_resolving processFunction l) \<and>
     failed r = or_default (totalFailed (with_default empty_State (initialState options))) 0
        + int (calls_rejecting processFunction l) \<and>
     calls_resolving processFunction l + calls_rejecting processFunction l = length items \<and>
     successes l = calls_resolving processFunction l \<and>
     failures l = calls_rejecting processFunction l"
proof -
  let ?v0 = "array_start options :: ('a, 'b, 'c) vars"
  have l0: "v_log ?v0 = []" by (simp add: array_start_def initial_vars_def)
  from batches_from_quiet[OF assms, of processFunction w items 0 ?v0]
  obtain v' where v':
    "batches_from options processFunction w items 0 ?v0 = Some (result_of v')"
    "int (successes (v_log v')) = int (calls_resolving processFunction (v_log v'))"
    "int (failures (v_log v')) = int (calls_rejecting processFunction (v_log v'))"
    "calls (v_log v') = length items"
    using l0 by auto
  from batches_from_evolves[OF v'(1)] obtain u where
    u: "evolves False ?v0 u" "result_of v' = result_of u"
    by (auto simp: ends_in_def result_of_def)
  have same: "v_totalProcessed u = v_totalProcessed v'" "v_totalFailed u = v_totalFailed v'"
    "v_log u = v_log v'"
    using u(2) by (simp_all add: result_of_def)
  from evolves_counters[OF u(1)]
  have c: "v_totalProcessed v' = v_totalProcessed ?v0 + int (successes (v_log v'))"
    "v_totalFailed v' = v_totalFailed ?v0 + int (failures (v_log v'))"
    using l0 same by simp_all
  show ?thesis
    using v' c calls_split[of "v_log v'" processFunction]
    by (simp add: processBatches_start result_of_def array_start_def initial_vars_def)
qed

subsection \<open>The paginated driver with callbacks that return normally\<close>

definition quiet_paged :: "('a, 'r, 'x) PaginatedBatchOptions \<Rightarrow> bool" where
  "quiet_paged options \<longleftrightarrow>
     (\<forall>p n s. p_onPageStart options p n s = None) \<and>
     (\<forall>p n pp tp s. p_onPageComplete options p n pp tp s = None) \<and>
     (\<forall>item r tp s. p_onItemSuccess options item r tp s = None) \<and>
     (\<forall>item error tf s. p_onItemError options item error tf s = None) \<and>
     (\<forall>s. p_onStateUpdate options s = None)"

lemma quiet_page_env:
  "quiet_paged options \<Longrightarrow> quiet_env (page_env options processFunction w items)"
  by (simp add: quiet_paged_def quiet_env_def page_env_def)

lemma page_env_simps [simp]:
  "ie_process (page_env options processFunction w items) = processFunction"
  "ie_limit (page_env options processFunction w items) = with_default 10 (p_concurrencyLimit options)"
  "ie_length (page_env options processFunction w items) = length items"
  "ie_stateUpdateInterval (page_env options processFunction w items) =
     with_default 5 (p_stateUpdateInterval options)"
  by (simp_all add: page_env_def)

text \<open>The value of \<^verbatim>\<open>totalPages\<close> after the page data has been looked at.\<close>

definition pages_after :: "'a PageData \<Rightarrow> int \<Rightarrow> int" where
  "pages_after pageData pages =
     (case pd_totalPages pageData of
        None \<Rightarrow> pages
      | Some n \<Rightarrow> if n \<noteq> 0 \<and> n \<noteq> pages then n else pages)"

fun fetched_page :: "('a, 'r, 'x) event \<Rightarrow> int list" where
  "fetched_page (FetchPageCall p s) = [p]"
| "fetched_page _ = []"

fun completed_page :: "('a, 'r, 'x) event \<Rightarrow> int list" where
  "completed_page (OnPageComplete p n pp tp s) = [p]"
| "completed_page _ = []"

definition fetched_pages :: "('a, 'r, 'x) event list \<Rightarrow> int list" where
  "fetched_pages l = concat (map fetched_page l)"

definition completed_pages :: "('a, 'r, 'x) event list \<Rightarrow> int list" where
  "completed_pages l = concat (map completed_page l)"

fun fetched_count :: "(int \<Rightarrow> 'x State \<Rightarrow> thrown + 'a PageData) \<Rightarrow> ('a, 'r, 'x) event \<Rightarrow> nat" where
  "fetched_count fetch (FetchPageCall p s) =
     (case fetch p s of Inr pageData \<Rightarrow> length (page_items pageData) | Inl error \<Rightarrow> 0)"
| "fetched_count fetch _ = 0"

definition fetched_items :: "(int \<Rightarrow> 'x State \<Rightarrow> thrown + 'a PageData) \<Rightarrow> ('a, 'r, 'x) event list \<Rightarrow> nat" where
  "fetched_items fetch l = sum_list (map (fetched_count fetch) l)"

lemma fetched_pages_simps [simp]:
  "fetched_pages [] = []" "fetched_pages (l @ l') = fetched_pages l @ fetched_pages l'"
  "fetched_pages (e # l) = fetched_page e @ fetched_pages l"
  by (simp_all add: fetched_pages_def)

lemma completed_pages_simps [simp]:
  "completed_pages [] = []" "completed_pages (l @ l') = completed_pages l @ completed_pages l'"
  "completed_pages (e # l) = completed_page e @ completed_pages l"
  by (simp_all add: completed_pages_def)

lemma fetched_items_simps [simp]:
  "fetched_items fetch [] = 0"
  "fetched_items fetch (l @ l') = fetched_items fetch l + fetched_items fetch l'"
  "fetched_items fetch (e # l) = fetched_count fetch e + fetched_items fetch l"
  by (simp_all add: fetched_items_def)

lemma item_level_not_paging:
  "item_level e \<Longrightarrow> fetched_page e = [] \<and> completed_page e = [] \<and> fetched_count fetch e = 0"
  by (cases e) simp_all

lemma paging_of_driver_events:
  "fetched_pages (driver_events l) = fetched_pages l"
  "completed_pages (driver_events l) = completed_pages l"
  "fetched_items fetch (driver_events l) = fetched_items fetch l"
  by (induction l) (auto simp: item_level_not_paging)

lemma run_gate_paging:
  assumes "run_gate env g = AllSettled v'"
  shows "fetched_pages (v_log v') = fetched_pages (v_log (g_vars g))"
    and "completed_pages (v_log v') = completed_pages (v_log (g_vars g))"
    and "fetched_items fetch (v_log v') = fetched_items fetch (v_log (g_vars g))"
  using run_gate_driver_events[of env g v'] assms paging_of_driver_events
  by metis+

fun is_state_update :: "('a, 'r, 'x) event \<Rightarrow> bool" where
  "is_state_update (OnStateUpdate s bn tb) = True"
| "is_state_update _ = False"

lemma state_updates_count_nothing:
  assumes "list_all is_state_update us"
  shows "successes us = 0" "failures us = 0" "calls us = 0" "calls_resolving f us = 0"
    "calls_rejecting f us = 0" "fetched_pages us = []" "completed_pages us = []"
    "fetched_items fetch us = 0"
  using assms
proof (induction us)
  case Nil
  {
    case 1 show ?case by simp
  next
    case 2 show ?case by simp
  next
    case 3 show ?case by simp
  next
    case 4 show ?case by simp
  next
    case 5 show ?case by simp
  next
    case 6 show ?case by simp
  next
    case 7 show ?case by simp
  next
    case 8 show ?case by simp
  }
next
  case (Cons e us)
  {
    case 1 then show ?case using Cons.IH(1) by (cases e) simp_all
  next
    case 2 then show ?case using Cons.IH(2) by (cases e) simp_all
  next
    case 3 then show ?case using Cons.IH(3) by (cases e) simp_all
  next
    case 4 then show ?case using Cons.IH(4) by (cases e) simp_all
  next
    case 5 then show ?case using Cons.IH(5) by (cases e) simp_all
  next
    case 6 then show ?case using Cons.IH(6) by (cases e) simp_all
  next
    case 7 then show ?case using Cons.IH(7) by (cases e) simp_all
  next
    case 8 then show ?case using Cons.IH(8) by (cases e) simp_all
  }
qed

lemma move_state_kept:
  "move False v v' \<Longrightarrow> kept False s0 (v_currentState v) \<Longrightarrow> kept False s0 (v_currentState v')"
  by (induction rule: move.induct) (auto simp: log_event_def refresh_state_def kept_def)

lemma evolves_state_kept:
  "evolves False v v' \<Longrightarrow> kept False s0 (v_currentState v) \<Longrightarrow> kept False s0 (v_currentState v')"
  by (induction rule: evolves_induct) (auto intro: move_state_kept)

lemma run_gate_state_kept:
  assumes "run_gate env g = AllSettled v'"
  shows "kept False (v_currentState (g_vars g)) (v_currentState v')"
  using run_gate_evolves[of env g v' _ False] assms
    evolves_state_kept[of "g_vars g" v' "v_currentState (g_vars g)"]
  by (simp add: kept_def)

lemma sync_totalPages_quiet:
  assumes "quiet_paged options"
  shows "\<exists>v' us. sync_totalPages options pageData pages v k = k (pages_after pageData pages) v' \<and>
     v_log v' = v_log v @ us \<and> list_all is_state_update us \<and>
     (totalPages (v_currentState v) = Some pages \<longrightarrow>
        totalPages (v_currentState v') = Some (pages_after pageData pages))"
proof (cases "pd_totalPages pageData")
  case None
  then have "sync_totalPages options pageData pages v k = k (pages_after pageData pages) v"
    by (simp add: sync_totalPages_def pages_after_def)
  then show ?thesis using None
    by (intro exI[of _ v] exI[of _ "[]"]) (simp add: pages_after_def)
next
  case (Some n)
  show ?thesis
  proof (cases "n \<noteq> 0 \<and> n \<noteq> pages")
    case False
    then have "sync_totalPages options pageData pages v k = k (pages_after pageData pages) v"
      using Some by (auto simp: sync_totalPages_def pages_after_def)
    then show ?thesis using False Some
      by (intro exI[of _ v] exI[of _ "[]"]) (auto simp: pages_after_def)
  next
    case True
    let ?v1 = "v\<lparr>v_currentState := (v_currentState v)\<lparr>totalPages := Some n\<rparr>\<rparr>"
    let ?v2 = "log_event (OnStateUpdate (v_currentState ?v1) None None) ?v1"
    have "sync_totalPages options pageData pages v k = k (pages_after pageData pages) ?v2"
      using Some True assms
      by (simp add: sync_totalPages_def pages_after_def emit_state_def await_call_def quiet_paged_def)
    then show ?thesis using True Some
      by (intro exI[of _ ?v2] exI[of _ "[OnStateUpdate (v_currentState ?v1) None None]"])
         (simp add: log_event_def pages_after_def)
  qed
qed

lemma page_iteration_quiet:
  assumes "quiet_paged options"
    and "0 < with_default 10 (p_concurrencyLimit options) \<or>
         (\<exists>u v'. page_iteration options fetchPageFunction processFunction w page pages v =
            Continue u v')"
    and "fetchPageFunction page (v_currentState v) = Inr pageData"
  shows "\<exists>v'. page_iteration options fetchPageFunction processFunction w page pages v =
       Continue (page + 1, pages_after pageData pages) v' \<and>
     int (successes (v_log v')) - int (calls_resolving processFunction (v_log v')) =
       int (successes (v_log v)) - int (calls_resolving processFunction (v_log v)) \<and>
     int (failures (v_log v')) - int (calls_rejecting processFunction (v_log v')) =
       int (failures (v_log v)) - int (calls_rejecting processFunction (v_log v)) \<and>
     calls (v_log v') = calls (v_log v) + length (page_items pageData) \<and>
     fetched_pages (v_log v') = fetched_pages (v_log v) @ [page] \<and>
     completed_pages (v_log v') =
       completed_pages (v_log v) @ (if page_items pageData = [] then [] else [page]) \<and>
     fetched_items fetchPageFunction (v_log v') =
       fetched_items fetchPageFunction (v_log v) + length (page_items pageData) \<and>
     currentPage (v_currentState v') = Some (page + 1) \<and>
     (totalPages (v_currentState v) = Some pages \<longrightarrow>
        totalPages (v_currentState v') = Some (pages_after pageData pages))"
proof -
  let ?cs = "v_currentState v"
  let ?v1 = "log_event (OnPageStart page pages ?cs) v"
  let ?v2 = "log_event (FetchPageCall page ?cs) ?v1"
  let ?items = "page_items pageData"
  let ?n = "pages_after pageData pages"
  let ?k = "process_page options processFunction w page pageData"
  have it: "page_iteration options fetchPageFunction processFunction w page pages v =
      sync_totalPages options pageData pages ?v2 ?k"
    using assms(1,3) by (simp add: page_iteration_def await_call_def quiet_paged_def)
  from sync_totalPages_quiet[OF assms(1), of pageData pages ?v2 ?k]
  obtain v3 us where v3: "sync_totalPages options pageData pages ?v2 ?k = ?k ?n v3"
    "v_log v3 = v_log ?v2 @ us" "list_all is_state_update us"
    "totalPages (v_currentState v) = Some pages \<longrightarrow>
        totalPages (v_currentState v3) = Some (pages_after pageData pages)"
    by (auto simp: log_event_def)
  note z = state_updates_count_nothing[OF v3(3)]
  have f: "fetched_count fetchPageFunction (FetchPageCall page ?cs) = length ?items"
    using assms(3) by simp
  show ?thesis
  proof (cases "length ?items = 0")
    case True
    let ?v4 = "(log_event (ConsoleLog (''No items found on page '' @ string_of_int page @ ''.'')) v3)
                      \<lparr>v_currentState := (v_currentState v3)\<lparr>currentPage := Some (page + 1)\<rparr>\<rparr>"
    let ?v5 = "log_event (OnStateUpdate (v_currentState ?v4) None None) ?v4"
    have "?k ?n v3 = Continue (page + 1, ?n) ?v5"
      using True assms(1) by (simp add: process_page_def emit_state_def await_call_def quiet_paged_def)
    moreover have "v_log ?v5 = v_log v @ [OnPageStart page pages ?cs, FetchPageCall page ?cs] @ us @
        [ConsoleLog (''No items found on page '' @ string_of_int page @ ''.''),
         OnStateUpdate (v_currentState ?v4) None None]"
      using v3(2) by (simp add: log_event_def)
    ultimately show ?thesis using it v3(1,4) z True f
      by (intro exI[of _ ?v5]) (simp add: log_event_def)
  next
    case False
    let ?env = "page_env options processFunction w ?items"
    have q: "quiet_env ?env" by (rule quiet_page_env[OF assms(1)])
    let ?g = "\<lparr>g_queue = zip [0..<length ?items] ?items, g_active = [],
        g_vars = v3\<lparr>v_batchProcessed := 0\<rparr>\<rparr>"
    have pos: "0 < ie_limit ?env"
    proof (rule ccontr)
      assume n: "\<not> 0 < ie_limit ?env"
      then have "page_iteration options fetchPageFunction processFunction w page pages v =
          Abort pLimit_TypeError v3"
        using it v3(1) False by (simp add: process_page_def Let_def await_all_def)
      then show False using assms(2) n by auto
    qed
    then have l: "0 < ie_limit ?env \<or> run_gate ?env ?g \<noteq> NeverSettles"
      by simp
    from run_gate_quiet[OF q l]
    obtain v4 where v4: "run_gate ?env ?g = AllSettled v4"
      "int (successes (v_log v4)) - int (calls_resolving processFunction (v_log v4)) =
         int (successes (v_log v3)) - int (calls_resolving processFunction (v_log v3))"
      "int (failures (v_log v4)) - int (calls_rejecting processFunction (v_log v4)) =
         int (failures (v_log v3)) - int (calls_rejecting processFunction (v_log v3))"
      "calls (v_log v4) = calls (v_log v3) + length ?items"
      by auto
    note p = run_gate_paging[OF v4(1)]
    have st: "totalPages (v_currentState v4) = totalPages (v_currentState v3)"
      using run_gate_state_kept[OF v4(1)] by (simp add: kept_def)
    let ?v5 = "(refresh_state (now w) v4)
                 \<lparr>v_currentState := (v_currentState (refresh_state (now w) v4))
                     \<lparr>currentPage := Some (page + 1)\<rparr>\<rparr>"
    let ?v6 = "log_event (OnStateUpdate (v_currentState ?v5) None None) ?v5"
    let ?v7 = "log_event (OnPageComplete (page + 1 - 1) ?n (int (v_batchProcessed ?v6))
                           (v_totalProcessed ?v6) (v_currentState ?v6)) ?v6"
    have "?k ?n v3 = Continue (page + 1, ?n) ?v7"
      using False assms(1) v4(1) pos
      by (simp add: process_page_def Let_def await_all_def emit_state_def await_call_def quiet_paged_def)
    moreover have "v_log ?v7 = v_log v4 @ [OnStateUpdate (v_currentState ?v5) None None,
        OnPageComplete (page + 1 - 1) ?n (int (v_batchProcessed ?v6))
                           (v_totalProcessed ?v6) (v_currentState ?v6)]"
      by (simp add: log_event_def refresh_state_def)
    ultimately show ?thesis
      using it v3(1,2,4) z False f v4(2,3,4) p st
      by (intro exI[of _ ?v7]) (simp add: log_event_def refresh_state_def)
  qed
qed

lemma pages_from_done:
  "\<not> page \<le> pages \<Longrightarrow>
   pages_from options fetchPageFunction processFunction w page pages v = Some (result_of v)"
  by (subst pages_from.simps) simp

lemma pages_from_step:
  "page \<le> pages \<Longrightarrow>
   page_iteration options fetchPageFunction processFunction w page pages v = Continue (page', pages') v' \<Longrightarrow>
   pages_from options fetchPageFunction processFunction w page pages v =
     pages_from options fetchPageFunction processFunction w page' pages' v'"
  by (subst pages_from.simps) simp

lemma page_iteration_fetch_rejects:
  assumes "p_onPageStart options page pages (v_currentState v) = None"
    and "fetchPageFunction page (v_currentState v) = Inl error"
  shows "page_iteration options fetchPageFunction processFunction w page pages v =
     Abort error (log_event (FetchPageCall page (v_currentState v))
                    (log_event (OnPageStart page pages (v_currentState v)) v))"
  using assms by (simp add: page_iteration_def await_call_def)

text \<open>
  A run of the paginated driver need not return: \<^verbatim>\<open>totalPages\<close> can grow with every
  page. When it returns and the callbacks return normally, every item of every page
  that was fetched was handed to \<^verbatim>\<open>processFunction\<close> once and answered by its callback,
  and the cursor has passed the last page.
\<close>

lemma pages_from_quiet:
  assumes "pages_from options fetchPageFunction processFunction w page pages v = Some out"
    and "quiet_paged options"
    and "currentPage (v_currentState v) = Some page" "totalPages (v_currentState v) = Some pages"
  shows "(\<exists>error l. out = Threw error l) \<or> (\<exists>v'. out = result_of v' \<and>
     int (successes (v_log v')) - int (calls_resolving processFunction (v_log v')) =
       int (successes (v_log v)) - int (calls_resolving processFunction (v_log v)) \<and>
     int (failures (v_log v')) - int (calls_rejecting processFunction (v_log v')) =
       int (failures (v_log v)) - int (calls_rejecting processFunction (v_log v)) \<and>
     int (calls (v_log v')) - int (fetched_items fetchPageFunction (v_log v')) =
       int (calls (v_log v)) - int (fetched_items fetchPageFunction (v_log v)) \<and>
     (\<exists>p n. currentPage (v_currentState v') = Some p \<and> totalPages (v_currentState v') = Some n \<and> n < p))"
  using assms
proof (induction rule: pages_from.raw_induct[rotated 1, consumes 1, case_names step])
  case (step pages_from options fetchPageFunction processFunction w page pages v out)
  show ?case
  proof (cases "page \<le> pages")
    case False
    then have "out = result_of v" using step(2) by simp
    then show ?thesis using False step(4,5) by auto
  next
    case True
    show ?thesis
    proof (cases "fetchPageFunction page (v_currentState v)")
      case (Inl error)
      have "p_onPageStart options page pages (v_currentState v) = None"
        using step(3) by (simp add: quiet_paged_def)
      then have "page_iteration options fetchPageFunction processFunction w page pages v =
          Abort error (log_event (FetchPageCall page (v_currentState v))
                    (log_event (OnPageStart page pages (v_currentState v)) v))"
        using Inl by (rule page_iteration_fetch_rejects)
      then have "\<exists>error l. out = Threw error l" using step(2) True by auto
      then show ?thesis by blast
    next
      case (Inr pageData)
      show ?thesis
      proof (cases "page_iteration options fetchPageFunction processFunction w page pages v")
        case (Abort error v')
        then have "\<exists>error l. out = Threw error l" using step(2) True by auto
        then show ?thesis by blast
      next
        case Stuck
        then show ?thesis using step(2) True by simp
      next
        case (Continue u v')
        then have ns: "0 < with_default 10 (p_concurrencyLimit options) \<or>
            (\<exists>u v'. page_iteration options fetchPageFunction processFunction w page pages v =
               Continue u v')"
          by simp
        from page_iteration_quiet[where options = options and fetchPageFunction = fetchPageFunction
            and page = page and v = v and pageData = pageData and processFunction = processFunction
            and w = w and pages = pages, OF step(3) ns Inr]
        obtain v1 where v1:
          "page_iteration options fetchPageFunction processFunction w page pages v =
             Continue (page + 1, pages_after pageData pages) v1"
          "int (successes (v_log v1)) - int (calls_resolving processFunction (v_log v1)) =
             int (successes (v_log v)) - int (calls_resolving processFunction (v_log v))"
          "int (failures (v_log v1)) - int (calls_rejecting processFunction (v_log v1)) =
             int (failures (v_log v)) - int (calls_rejecting processFunction (v_log v))"
          "calls (v_log v1) = calls (v_log v) + length (page_items pageData)"
          "fetched_items fetchPageFunction (v_log v1) =
             fetched_items fetchPageFunction (v_log v) + length (page_items pageData)"
          "currentPage (v_currentState v1) = Some (page + 1)"
          "totalPages (v_currentState v1) = Some (pages_after pageData pages)"
          using step(5) by blast
        have "pages_from options fetchPageFunction processFunction w (page + 1)
            (pages_after pageData pages) v1 = Some out"
          using step(2) True v1(1) by simp
        from step(1)[OF this step(3) v1(6,7)] show ?thesis
          using v1(2,3,4,5) by auto
      qed
    qed
  qed
qed

lemma paged_start_simps [simp]:
  "v_log (paged_start options) = []"
  "v_totalProcessed (paged_start options) =
     or_default (totalProcessed (with_default empty_State (p_initialState options))) 0"
  "v_totalFailed (paged_start options) =
     or_default (totalFailed (with_default empty_State (p_initialState options))) 0"
  "currentPage (v_currentState (paged_start options)) =
     Some (or_default (currentPage (with_default empty_State (p_initialState options)))
             (with_default 1 (p_initialPage options)))"
  "totalPages (v_currentState (paged_start options)) =
     Some (or_default (totalPages (with_default empty_State (p_initialState options))) 1)"
  by (simp_all add: paged_start_def initial_vars_def Let_def)

lemma array_start_simps [simp]:
  "v_log (array_start options) = []"
  "v_totalProcessed (array_start options) =
     or_default (totalProcessed (with_default empty_State (initialState options))) 0"
  "v_totalFailed (array_start options) =
     or_default (totalFailed (with_default empty_State (initialState options))) 0"
  "v_currentState (array_start options) = with_default empty_State (initialState options)"
  by (simp_all add: array_start_def initial_vars_def)

lemma result_of_simps [simp]:
  "result_of v = Returned r l \<longleftrightarrow>
     r = \<lparr>processed = v_totalProcessed v, failed = v_totalFailed v, state = v_currentState v\<rparr> \<and> l = v_log v"
  "result_of v \<noteq> Threw error l"
  by (auto simp: result_of_def)

lemma processPaginatedBatches_quiet:
  assumes "processPaginatedBatches fetchPageFunction processFunction options w = Some (Returned r l)"
    and "quiet_paged options"
  shows "processed r = or_default (totalProcessed (with_default empty_State (p_initialState options))) 0
            + int (calls_resolving processFunction l) \<and>
         failed r = or_default (totalFailed (with_default empty_State (p_initialState options))) 0
            + int (calls_rejecting processFunction l) \<and>
         calls_resolving processFunction l + calls_rejecting processFunction l =
           fetched_items fetchPageFunction l \<and>
         successes l = calls_resolving processFunction l \<and>
         failures l = calls_rejecting processFunction l \<and>
         (\<exists>p n. currentPage (state r) = Some p \<and> totalPages (state r) = Some n \<and> n < p)"
proof -
  let ?v0 = "paged_start options"
  let ?page = "or_default (currentPage (with_default empty_State (p_initialState options)))
          (with_default 1 (p_initialPage options))"
  let ?pages = "or_default (totalPages (with_default empty_State (p_initialState options))) 1"
  have run: "pages_from options fetchPageFunction processFunction w ?page ?pages ?v0 = Some (Returned r l)"
    using assms(1) by (simp add: processPaginatedBatches_start)
  from pages_from_quiet[OF run assms(2)]
  obtain v' where v': "Returned r l = result_of v'"
    "int (successes (v_log v')) = int (calls_resolving processFunction (v_log v'))"
    "int (failures (v_log v')) = int (calls_rejecting processFunction (v_log v'))"
    "int (calls (v_log v')) = int (fetched_items fetchPageFunction (v_log v'))"
    "\<exists>p n. currentPage (v_currentState v') = Some p \<and> totalPages (v_currentState v') = Some n \<and> n < p"
    by auto
  from pages_from_evolves[OF run] obtain u where
    u: "evolves True ?v0 u" "Returned r l = result_of u"
    by (auto simp: ends_in_def)
  have same: "v_totalProcessed u = v_totalProcessed v'" "v_totalFailed u = v_totalFailed v'"
    "v_log u = v_log v'"
    using u(2) v'(1) by (simp_all add: result_of_def)
  from evolves_counters[OF u(1)]
  have c: "v_totalProcessed v' = v_totalProcessed ?v0 + int (successes (v_log v'))"
    "v_totalFailed v' = v_totalFailed ?v0 + int (failures (v_log v'))"
    using same by simp_all
  have rl: "processed r = v_totalProcessed v'" "failed r = v_totalFailed v'" "l = v_log v'"
    "state r = v_currentState v'"
    using v'(1) by (simp_all add: result_of_def)
  show ?thesis
    using v'(2,3,4,5) c calls_split[of "v_log v'" processFunction] rl by simp
qed

subsection \<open>A batch size of 0\<close>

text \<open>
  With \<^verbatim>\<open>batchSize\<close> 0 the loop variable of \<^verbatim>\<open>processBatches\<close> never moves: every
  iteration runs an empty batch, and the run does not return.
\<close>

lemma batches_from_zero_size:
  assumes "quiet options" "0 < with_default 10 (concurrencyLimit options)"
    and "with_default 20 (batchSize options) = 0" "i < length items"
  shows "batches_from options processFunction w items i v = None"
proof -
  have "batches_from options processFunction w items i v = Some out \<Longrightarrow>
      \<not> (quiet options \<and> 0 < with_default 10 (concurrencyLimit options) \<and>
         with_default 20 (batchSize options) = 0 \<and> i < length items)" for out
  proof (induction rule: batches_from.raw_induct[rotated 1, consumes 1, case_names step])
    case (step batches_from options processFunction w items i v out)
    show ?case
    proof
      assume a: "quiet options \<and> 0 < with_default 10 (concurrencyLimit options) \<and>
         with_default 20 (batchSize options) = 0 \<and> i < length items"
      then obtain v1 where "batch_iteration options processFunction w items i v = Continue () v1"
        using batch_iteration_quiet[of options processFunction w items i v] by blast
      then have "batches_from options processFunction w items i v1 = Some out"
        using step(2) a by simp
      from step(1)[OF this] show False using a by simp
    qed
  qed
  then show ?thesis using assms by (cases "batches_from options processFunction w items i v") auto
qed

subsection \<open>Concrete runs\<close>

definition plain_options :: "(nat, nat, nat) BatchOptions" where
  "plain_options =
     \<lparr>batchSize = None, concurrencyLimit = None,
      onBatchStart = (\<lambda>bn tb batch s. None),
      onBatchComplete = (\<lambda>bn tb batch tp tf s. None),
      onItemSuccess = (\<lambda>item r tp s. None),
      onItemError = (\<lambda>item error tf s. None),
      onStateUpdate = (\<lambda>s bn tb. None),
      stateUpdateInterval = None,
      initialState = None\<rparr>"

definition plain_paged_options :: "(nat, nat, nat) PaginatedBatchOptions" where
  "plain_paged_options =
     \<lparr>p_initialPage = None, p_concurrencyLimit = None,
      p_onPageStart = (\<lambda>p n s. None),
      p_onPageComplete = (\<lambda>p n pp tp s. None),
      p_onItemSuccess = (\<lambda>item r tp s. None),
      p_onItemError = (\<lambda>item error tf s. None),
      p_onStateUpdate = (\<lambda>s. None),
      p_stateUpdateInterval = None,
      p_initialState = None\<rparr>"

definition zero_size_options :: "(nat, nat, nat) BatchOptions" where
  "zero_size_options = plain_options\<lparr>batchSize := Some 0\<rparr>"

definition fifo_world :: world where
  "fifo_world = \<lparr>schedule = (\<lambda>k. 0), now = (\<lambda>k. ''2024-01-01T00:00:00.000Z'')\<rparr>"

definition resolving :: "nat \<Rightarrow> nat \<Rightarrow> nat State \<Rightarrow> thrown + nat" where
  "resolving item index s = Inr (2 * item)"

definition rejecting :: "nat \<Rightarrow> nat \<Rightarrow> nat State \<Rightarrow> thrown + nat" where
  "rejecting item index s = Inl (JString ''boom'')"

definition odd_rejecting :: "nat \<Rightarrow> nat \<Rightarrow> nat State \<Rightarrow> thrown + nat" where
  "odd_rejecting item index s = (if odd item then Inl (JNumber 42) else Inr item)"

definition ten_per_page :: "int \<Rightarrow> nat State \<Rightarrow> thrown + nat PageData" where
  "ten_per_page p s =
     Inr \<lparr>pd_items = Some [0, 1, 2, 3, 4, 5, 6, 7, 8, 9], pd_results = None, pd_totalPages = Some 3\<rparr>"

lemma quiet_plain [simp]: "quiet plain_options" "quiet zero_size_options"
  by (simp_all add: quiet_def plain_options_def zero_size_options_def)

lemma quiet_paged_plain [simp]: "quiet_paged plain_paged_options"
  by (simp add: quiet_paged_def plain_paged_options_def)

lemma calls_rejecting_none:
  assumes "\<forall>item index s. \<exists>r. f item index s = Inr r"
  shows "calls_rejecting f l = 0"
proof -
  have "\<not> call_rejects f e" for e :: "('a, 'c, 'b) event"
  proof (cases e)
    case (ProcessCall item index s)
    obtain r where "f item index s = Inr r" using assms by blast
    then show ?thesis using ProcessCall by simp
  qed simp_all
  then show ?thesis by (simp add: calls_rejecting_def)
qed

subsection \<open>Three pages of ten items\<close>

lemma three_pages_run:
  assumes q: "quiet_paged options" and l: "0 < with_default 10 (p_concurrencyLimit options)"
    and init: "or_default (currentPage (with_default empty_State (p_initialState options)))
          (with_default 1 (p_initialPage options)) = 1"
      "or_default (totalPages (with_default empty_State (p_initialState options))) 1 = 1"
    and fetch: "\<forall>p s. \<exists>pageData. fetchPageFunction p s = Inr pageData \<and>
        pd_totalPages pageData = Some 3 \<and> length (page_items pageData) = 10"
  shows "\<exists>r l. processPaginatedBatches fetchPageFunction processFunction options w = Some (Returned r l) \<and>
     fetched_pages l = [1, 2, 3] \<and> completed_pages l = [1, 2, 3] \<and>
     currentPage (state r) = Some 4 \<and> totalPages (state r) = Some 3 \<and>
     processed r + failed r =
       or_default (totalProcessed (with_default empty_State (p_initialState options))) 0 +
       or_default (totalFailed (with_default empty_State (p_initialState options))) 0 + 30 \<and>
     failures l = calls_rejecting processFunction l \<and>
     failed r = or_default (totalFailed (with_default empty_State (p_initialState options))) 0
       + int (failures l)"
proof -
  let ?v0 = "paged_start options"
  let ?run = "pages_from options fetchPageFunction processFunction w"
  have start: "processPaginatedBatches fetchPageFunction processFunction options w = ?run 1 1 ?v0"
    using init by (simp add: processPaginatedBatches_start)
  have s0: "currentPage (v_currentState ?v0) = Some 1" "totalPages (v_currentState ?v0) = Some 1"
    using init by simp_all
  have step: "\<exists>v'. ?run page pages v = ?run (page + 1) 3 v' \<and>
     calls (v_log v') = calls (v_log v) + 10 \<and>
     fetched_pages (v_log v') = fetched_pages (v_log v) @ [page] \<and>
     completed_pages (v_log v') = completed_pages (v_log v) @ [page] \<and>
     currentPage (v_currentState v') = Some (page + 1) \<and>
     totalPages (v_currentState v') = Some 3"
    if le: "page \<le> pages" and tp: "totalPages (v_currentState v) = Some pages" for page pages v
  proof -
    from fetch obtain pageData where pd: "fetchPageFunction page (v_currentState v) = Inr pageData"
      "pd_totalPages pageData = Some 3" "length (page_items pageData) = 10"
      by blast
    have pa: "pages_after pageData pages = 3" using pd(2) by (simp add: pages_after_def)
    have ne: "page_items pageData \<noteq> []" using pd(3) by auto
    from page_iteration_quiet[where options = options and fetchPageFunction = fetchPageFunction
          and page = page and v = v and pageData = pageData and processFunction = processFunction
          and w = w and pages = pages, OF q disjI1[OF l] pd(1)]
    obtain v' where v': "page_iteration options fetchPageFunction processFunction w page pages v =
         Continue (page + 1, 3) v'"
      "calls (v_log v') = calls (v_log v) + 10"
      "fetched_pages (v_log v') = fetched_pages (v_log v) @ [page]"
      "completed_pages (v_log v') = completed_pages (v_log v) @ [page]"
      "currentPage (v_currentState v') = Some (page + 1)"
      "totalPages (v_currentState v') = Some 3"
      using pa ne pd(3) tp by auto
    have "?run page pages v = ?run (page + 1) 3 v'"
      using le v'(1) by (rule pages_from_step)
    then show ?thesis using v'(2-) by blast
  qed
  from step[of 1 1 ?v0] s0 obtain v1 where v1: "?run 1 1 ?v0 = ?run 2 3 v1"
    "calls (v_log v1) = 10" "fetched_pages (v_log v1) = [1]" "completed_pages (v_log v1) = [1]"
    "totalPages (v_currentState v1) = Some 3"
    by auto
  from step[of 2 3 v1] v1 obtain v2 where v2: "?run 2 3 v1 = ?run 3 3 v2"
    "calls (v_log v2) = 20" "fetched_pages (v_log v2) = [1, 2]" "completed_pages (v_log v2) = [1, 2]"
    "totalPages (v_currentState v2) = Some 3"
    by auto
  from step[of 3 3 v2] v2 obtain v3 where v3: "?run 3 3 v2 = ?run 4 3 v3"
    "calls (v_log v3) = 30" "fetched_pages (v_log v3) = [1, 2, 3]"
    "completed_pages (v_log v3) = [1, 2, 3]"
    "currentPage (v_currentState v3) = Some 4" "totalPages (v_currentState v3) = Some 3"
    by auto
  have "?run 4 3 v3 = Some (result_of v3)" by (rule pages_from_done) simp
  then have run: "processPaginatedBatches fetchPageFunction processFunction options w =
      Some (Returned \<lparr>processed = v_totalProcessed v3, failed = v_totalFailed v3,
                       state = v_currentState v3\<rparr> (v_log v3))"
    using start v1(1) v2(1) v3(1) by (simp add: result_of_def)
  from processPaginatedBatches_quiet[OF run q]
  have "v_totalProcessed v3 =
      or_default (totalProcessed (with_default empty_State (p_initialState options))) 0 +
      int (calls_resolving processFunction (v_log v3))"
    "v_totalFailed v3 =
      or_default (totalFailed (with_default empty_State (p_initialState options))) 0 +
      int (calls_rejecting processFunction (v_log v3))"
    "failures (v_log v3) = calls_rejecting processFunction (v_log v3)"
    by simp_all
  then show ?thesis
    using run v3(2-) calls_split[of "v_log v3" processFunction] by simp
qed

lemma ten_per_page_fetch:
  "\<forall>p s. \<exists>pageData. ten_per_page p s = Inr pageData \<and>
        pd_totalPages pageData = Some 3 \<and> length (page_items pageData) = 10"
  by (simp add: ten_per_page_def page_items_def)

lemma plain_paged_defaults:
  "0 < with_default 10 (p_concurrencyLimit plain_paged_options)"
  "with_default empty_State (p_initialState plain_paged_options) = empty_State"
  "p_initialPage plain_paged_options = None"
  by (simp_all add: plain_paged_options_def with_default_def)

lemma plain_defaults:
  "0 < with_default 20 (batchSize plain_options)"
  "0 < with_default 10 (concurrencyLimit plain_options)"
  "with_default empty_State (initialState plain_options) = empty_State"
  by (simp_all add: plain_options_def with_default_def)

definition job_state :: "nat State" where
  "job_state = empty_State\<lparr>startTime := Some 1000, extra := (\<lambda>k. if k = ''jobId'' then Some 42 else None)\<rparr>"

definition job_options :: "(nat, nat, nat) BatchOptions" where
  "job_options = plain_options\<lparr>initialState := Some job_state\<rparr>"

definition job_paged_options :: "(nat, nat, nat) PaginatedBatchOptions" where
  "job_paged_options = plain_paged_options\<lparr>p_initialState := Some job_state\<rparr>"

definition plain_env :: "(nat, nat, nat) item_env" where
  "plain_env = batch_env plain_options rejecting fifo_world [7] (Fin 1) (Fin 1)"

lemma job_defaults:
  "quiet job_options" "0 < with_default 20 (batchSize job_options)"
  "0 < with_default 10 (concurrencyLimit job_options)"
  "with_default empty_State (initialState job_options) = job_state"
  by (simp_all add: job_options_def plain_options_def quiet_def with_default_def)

lemma job_paged_defaults:
  "quiet_paged job_paged_options" "0 < with_default 10 (p_concurrencyLimit job_paged_options)"
  "with_default empty_State (p_initialState job_paged_options) = job_state"
  "or_default (currentPage (with_default empty_State (p_initialState job_paged_options)))
          (with_default 1 (p_initialPage job_paged_options)) = 1"
  "or_default (totalPages (with_default empty_State (p_initialState job_paged_options))) 1 = 1"
  by (simp_all add: job_paged_options_def plain_paged_options_def quiet_paged_def with_default_def
        job_state_def empty_State_def or_default_def)

subsection \<open>The page count of a fetched page\<close>

lemma await_call_Continue:
  "await_call e r v k = Continue u v' \<Longrightarrow> r = None \<and> k (log_event e v) = Continue u v'"
  by (cases r) (simp_all add: await_call_def)

lemma emit_state_Continue:
  "emit_state options v k = Continue u v' \<Longrightarrow>
   k (log_event (OnStateUpdate (v_currentState v) None None) v) = Continue u v'"
  unfolding emit_state_def by (drule await_call_Continue) simp

lemma await_all_Continue:
  assumes "await_all env batch v k = Continue u v'"
  obtains v1 where
    "run_gate env \<lparr>g_queue = zip [0..<length batch] batch, g_active = [],
        g_vars = v\<lparr>v_batchProcessed := 0\<rparr>\<rparr> = AllSettled v1"
    "k v1 = Continue u v'"
  using assms by (auto simp: await_all_def split: step_result.splits if_splits)

lemma process_page_Continue:
  assumes "process_page options processFunction w page pageData pages v = Continue u v'"
  shows "u = (page + 1, pages) \<and> totalPages (v_currentState v') = totalPages (v_currentState v) \<and>
         currentPage (v_currentState v') = Some (page + 1)"
proof (cases "length (page_items pageData) = 0")
  case True
  then show ?thesis
    using assms by (auto simp: process_page_def dest!: emit_state_Continue)
next
  case False
  let ?items = "page_items pageData"
  from assms False have "await_all (page_env options processFunction w ?items) ?items v
        (\<lambda>v. emit_state options
             ((refresh_state (now w) v)
                \<lparr>v_currentState := (v_currentState (refresh_state (now w) v))
                   \<lparr>currentPage := Some (page + 1)\<rparr>\<rparr>)
        (\<lambda>v. await_call
               (OnPageComplete (page + 1 - 1) pages (int (v_batchProcessed v))
                  (v_totalProcessed v) (v_currentState v))
               (p_onPageComplete options (page + 1 - 1) pages (int (v_batchProcessed v))
                  (v_totalProcessed v) (v_currentState v)) v
             (Continue (page + 1, pages)))) = Continue u v'"
    by (simp add: process_page_def Let_def)
  then obtain v1 where v1:
    "run_gate (page_env options processFunction w ?items)
       \<lparr>g_queue = zip [0..<length ?items] ?items, g_active = [],
        g_vars = v\<lparr>v_batchProcessed := 0\<rparr>\<rparr> = AllSettled v1"
    "emit_state options
             ((refresh_state (now w) v1)
                \<lparr>v_currentState := (v_currentState (refresh_state (now w) v1))
                   \<lparr>currentPage := Some (page + 1)\<rparr>\<rparr>)
        (\<lambda>v. await_call
               (OnPageComplete (page + 1 - 1) pages (int (v_batchProcessed v))
                  (v_totalProcessed v) (v_currentState v))
               (p_onPageComplete options (page + 1 - 1) pages (int (v_batchProcessed v))
                  (v_totalProcessed v) (v_currentState v)) v
             (Continue (page + 1, pages))) = Continue u v'"
    by (rule await_all_Continue)
  have "totalPages (v_currentState v1) = totalPages (v_currentState v)"
    using run_gate_state_kept[OF v1(1)] by (simp add: kept_def)
  then show ?thesis
    using v1(2) by (auto simp: refresh_state_def dest!: emit_state_Continue await_call_Continue)
qed

fun shape :: "('a, 'r, 'x) event \<Rightarrow> string \<times> int option" where
  "shape (OnBatchStart bn tb batch s) = (''onBatchStart'', totalPages s)"
| "shape (OnBatchComplete bn tb batch tp tf s) = (''onBatchComplete'', totalPages s)"
| "shape (OnItemSuccess item r tp s) = (''onItemSuccess'', totalPages s)"
| "shape (OnItemError item error tf s) = (''onItemError'', totalPages s)"
| "shape (OnStateUpdate s bn tb) = (''onStateUpdate'', totalPages s)"
| "shape (OnPageStart p n s) = (''onPageStart'', totalPages s)"
| "shape (OnPageComplete p n pp tp s) = (''onPageComplete'', totalPages s)"
| "shape (ProcessCall item index s) = (''process'', totalPages s)"
| "shape (FetchPageCall p s) = (''fetchPage'', totalPages s)"
| "shape (ConsoleLog m) = (''console.log'', None)"

definition pages_in_log :: "('a, 'r, 'x) outcome \<Rightarrow> (string \<times> int option) list" where
  "pages_in_log out = map shape (log_of out)"

definition zero_total :: "int \<Rightarrow> nat State \<Rightarrow> thrown + nat PageData" where
  "zero_total p s = Inr \<lparr>pd_items = Some [7], pd_results = None, pd_totalPages = Some 0\<rparr>"

lemmas evaluation =
  processBatches_def processPaginatedBatches_def batches_from.simps pages_from.simps
  batch_iteration_def page_iteration_def process_page_def
  sync_totalPages_def emit_state_def await_call_def await_all_def run_gate.simps gate_step_def
  can_admit_def admit_def tick_def resume_task_def catch_block_def update_due_def
  refresh_state_def log_event_def page_env_def batch_env_def page_items_def initial_vars_def
  with_default_def or_default_def empty_State_def result_of_def as_Error_def slice_def
  math_ceil_div_def math_floor_div_plus1_def Let_def

subsection \<open>A success callback that throws\<close>

definition tally :: "('a, 'r, 'x) outcome option \<Rightarrow> (int \<times> int) option" where
  "tally run = (case run of Some (Returned r l) \<Rightarrow> Some (processed r, failed r) | _ \<Rightarrow> None)"

fun call_name :: "('a, 'r, 'x) event \<Rightarrow> string" where
  "call_name e = fst (shape e)"

definition call_names :: "('a, 'r, 'x) outcome option \<Rightarrow> string list option" where
  "call_names run = map_option (map call_name) (map_option log_of run)"

definition failing_hook_options :: "(nat, nat, nat) BatchOptions" where
  "failing_hook_options =
     plain_options\<lparr>onItemSuccess := (\<lambda>item r tp s. Some (JError ''disk full''))\<rparr>"

subsection \<open>When the items of a batch emit state updates\<close>

text \<open>
  A log of the calls made while the items of one batch (or page) run is replayed with the
  number of \<^verbatim>\<open>onItemSuccess\<close> calls so far: every \<^verbatim>\<open>onStateUpdate\<close> call must come when
  that number is positive and is a multiple of the interval or the length of the batch.
\<close>

fun cadence_ok :: "nat \<Rightarrow> nat \<Rightarrow> nat \<Rightarrow> ('a, 'r, 'x) event list \<Rightarrow> bool" where
  "cadence_ok n len c [] = True"
| "cadence_ok n len c (OnItemSuccess item r tp s # l) = cadence_ok n len (Suc c) l"
| "cadence_ok n len c (OnStateUpdate s bn tb # l) =
     (0 < c \<and> (n dvd c \<or> c = len) \<and> cadence_ok n len c l)"
| "cadence_ok n len c (OnBatchStart bn tb batch s # l) = cadence_ok n len c l"
| "cadence_ok n len c (OnBatchComplete bn tb batch tp tf s # l) = cadence_ok n len c l"
| "cadence_ok n len c (OnItemError item error tf s # l) = cadence_ok n len c l"
| "cadence_ok n len c (OnPageStart p k s # l) = cadence_ok n len c l"
| "cadence_ok n len c (OnPageComplete p k pp tp s # l) = cadence_ok n len c l"
| "cadence_ok n len c (ProcessCall item index s # l) = cadence_ok n len c l"
| "cadence_ok n len c (FetchPageCall p s # l) = cadence_ok n len c l"
| "cadence_ok n len c (ConsoleLog m # l) = cadence_ok n len c l"

fun after_success :: "'r phase \<Rightarrow> bool" where
  "after_success (AwaitItemSuccess r c) = True"
| "after_success (AwaitStateUpdate r c) = True"
| "after_success _ = False"

fun failing_phase :: "'r phase \<Rightarrow> bool" where
  "failing_phase (AwaitProcess (Inl error)) = True"
| "failing_phase (AwaitItemError c) = True"
| "failing_phase _ = False"

definition state_updates :: "('a, 'r, 'x) event list \<Rightarrow> ('a, 'r, 'x) event list" where
  "state_updates l = filter is_state_update l"

lemma state_updates_simps [simp]:
  "state_updates [] = []" "state_updates (l @ l') = state_updates l @ state_updates l'"
  "state_updates (e # l) = (if is_state_update e then [e] else []) @ state_updates l"
  by (simp_all add: state_updates_def)

lemma cadence_ok_append:
  "cadence_ok n len c (l @ l') \<longleftrightarrow> cadence_ok n len c l \<and> cadence_ok n len (c + successes l) l'"
  by (induction n len c l rule: cadence_ok.induct) simp_all

lemma update_due_dvd:
  "0 < c \<Longrightarrow> update_due env c \<longleftrightarrow> ie_stateUpdateInterval env dvd c \<or> c = ie_length env"
  by (cases "ie_stateUpdateInterval env = 0") (auto simp: update_due_def dvd_eq_mod_eq_0)

definition cadence_inv ::
  "('a, 'r, 'x) item_env \<Rightarrow> ('a, 'r, 'x) event list \<Rightarrow> ('a, 'r, 'x) vars \<Rightarrow> ('a, 'r, 'x) event list \<Rightarrow> bool" where
  "cadence_inv env l0 v new \<longleftrightarrow>
     v_log v = l0 @ new \<and> cadence_ok (ie_stateUpdateInterval env) (ie_length env) 0 new \<and>
     v_batchProcessed v = successes new"

lemma resume_cadence:
  assumes "resume env item ph v = (v', r)" "cadence_inv env l0 v new"
    and "after_success ph \<longrightarrow> 0 < successes new"
  shows "\<exists>new'. cadence_inv env l0 v' new' \<and> successes new \<le> successes new' \<and>
     (\<forall>ph'. r = Inl ph' \<longrightarrow> after_success ph' \<longrightarrow> 0 < successes new')"
proof (cases "(env, item, ph, v)" rule: resume.cases)
  case (1 env' item' result v0)
  then have "cadence_inv env l0 v' (new @ [OnItemSuccess item result (v_totalProcessed v + 1) (v_currentState v)])"
    using assms(1,2) by (auto simp: cadence_inv_def cadence_ok_append Let_def log_event_def)
  then show ?thesis by (intro exI[of _ "new @ [OnItemSuccess item result (v_totalProcessed v + 1) (v_currentState v)]"]) simp
next
  case (2 env' item' error v0)
  then have "cadence_inv env l0 v' (new @ [OnItemError item (as_Error error) (v_totalFailed v + 1) (v_currentState v)])"
      "\<exists>c. r = Inl (AwaitItemError c)"
    using assms(1,2) by (auto simp: cadence_inv_def cadence_ok_append Let_def log_event_def catch_block_def)
  then show ?thesis
    by (intro exI[of _ "new @ [OnItemError item (as_Error error) (v_totalFailed v + 1) (v_currentState v)]"]) auto
next
  case (3 env' item' result v0)
  show ?thesis
  proof (cases "update_due env (v_batchProcessed v)")
    case True
    let ?e = "OnStateUpdate (v_currentState (refresh_state (ie_now env) v)) (ie_batchNumber env)
        (ie_totalBatches env)"
    have pos: "0 < successes new" using assms(3) 3 by simp
    have bp: "v_batchProcessed v = successes new" using assms(2) by (simp add: cadence_inv_def)
    have "ie_stateUpdateInterval env dvd successes new \<or> successes new = ie_length env"
      using True pos bp update_due_dvd[of "successes new" env] by simp
    then have "cadence_inv env l0 v' (new @ [?e])"
      using assms(1,2) 3 True pos
      by (auto simp: cadence_inv_def cadence_ok_append Let_def log_event_def refresh_state_def)
    then show ?thesis using pos by (intro exI[of _ "new @ [?e]"]) simp
  next
    case False
    then have "v' = v" "r = Inr Fulfilled" using assms(1) 3 by auto
    then show ?thesis using assms(2) by (intro exI[of _ new]) simp
  qed
next
  case (4 env' item' result error v0)
  then have "cadence_inv env l0 v' (new @ [OnItemError item (as_Error error) (v_totalFailed v + 1) (v_currentState v)])"
      "\<exists>c. r = Inl (AwaitItemError c)"
    using assms(1,2) by (auto simp: cadence_inv_def cadence_ok_append Let_def log_event_def catch_block_def)
  then show ?thesis
    by (intro exI[of _ "new @ [OnItemError item (as_Error error) (v_totalFailed v + 1) (v_currentState v)]"]) auto
next
  case (5 env' item' result v0)
  then have "v' = v" "r = Inr Fulfilled" using assms(1) by auto
  then show ?thesis using assms(2) by (intro exI[of _ new]) simp
next
  case (6 env' item' result error v0)
  then have "cadence_inv env l0 v' (new @ [OnItemError item (as_Error error) (v_totalFailed v + 1) (v_currentState v)])"
      "\<exists>c. r = Inl (AwaitItemError c)"
    using assms(1,2) by (auto simp: cadence_inv_def cadence_ok_append Let_def log_event_def catch_block_def)
  then show ?thesis
    by (intro exI[of _ "new @ [OnItemError item (as_Error error) (v_totalFailed v + 1) (v_currentState v)]"]) auto
next
  case (7 env' item' v0)
  then have "v' = v" "r = Inr Fulfilled" using assms(1) by auto
  then show ?thesis using assms(2) by (intro exI[of _ new]) simp
next
  case (8 env' item' error v0)
  then have "v' = v" "r = Inr (Rejected error)" using assms(1) by auto
  then show ?thesis using assms(2) by (intro exI[of _ new]) simp
qed

definition gate_cadence ::
  "('a, 'r, 'x) item_env \<Rightarrow> ('a, 'r, 'x) event list \<Rightarrow> ('a, 'r, 'x) gate \<Rightarrow> bool" where
  "gate_cadence env l0 g \<longleftrightarrow>
     (\<exists>new. cadence_inv env l0 (g_vars g) new \<and>
        (\<forall>(item, ph) \<in> set (g_active g). after_success ph \<longrightarrow> 0 < successes new))"

lemma cadence_inv_tick [simp]:
  "cadence_inv env l0 (g_vars (tick g)) new = cadence_inv env l0 (g_vars g) new"
  by (simp add: cadence_inv_def tick_def)

lemma gate_step_cadence:
  assumes "gate_cadence env l0 g" "gate_step env g = Next g'"
  shows "gate_cadence env l0 g'"
  using assms(2)
proof (cases rule: gate_step_Next)
  case admitted
  from assms(1) obtain new where new: "cadence_inv env l0 (g_vars g) new"
    "\<forall>(item, ph) \<in> set (g_active g). after_success ph \<longrightarrow> 0 < successes new"
    by (auto simp: gate_cadence_def)
  obtain index item rest where q: "g_queue g = (index, item) # rest"
    using admitted(1) by (cases "g_queue g") (auto simp: can_admit_def)
  let ?e = "ProcessCall item index (v_currentState (g_vars g))"
  have "cadence_inv env l0 (g_vars g') (new @ [?e])"
    using new(1) q admitted(2)
    by (simp add: admit_def tick_def cadence_inv_def cadence_ok_append Let_def log_event_def)
  moreover have "\<forall>(item, ph) \<in> set (g_active g'). after_success ph \<longrightarrow> 0 < successes (new @ [?e])"
    using new(2) q admitted(2) by (auto simp: admit_def tick_def Let_def)
  ultimately show ?thesis unfolding gate_cadence_def by blast
next
  case (resumed k)
  from assms(1) obtain new where new: "cadence_inv env l0 (g_vars g) new"
    "\<forall>(item, ph) \<in> set (g_active g). after_success ph \<longrightarrow> 0 < successes new"
    by (auto simp: gate_cadence_def)
  from resumed(2) show ?thesis
  proof (rule resume_task_Next)
    fix item ph v' r
    assume a: "g_active (tick g) ! k = (item, ph)" "resume env item ph (g_vars (tick g)) = (v', r)"
      "g_vars g' = v'" "g_queue g' = g_queue (tick g)"
      "(\<exists>ph'. r = Inl ph' \<and> g_active g' = (g_active (tick g))[k := (item, ph')]) \<or>
       (r = Inr Fulfilled \<and> g_active g' = take k (g_active (tick g)) @ drop (Suc k) (g_active (tick g)))"
    have mem: "(item, ph) \<in> set (g_active g)" using a(1) resumed(1) by (metis active_tick(1) nth_mem)
    then have "after_success ph \<longrightarrow> 0 < successes new" using new(2) by auto
    from resume_cadence[OF a(2) _ this, of l0] new(1)
    obtain new' where new': "cadence_inv env l0 v' new'" "successes new \<le> successes new'"
      "\<forall>ph'. r = Inl ph' \<longrightarrow> after_success ph' \<longrightarrow> 0 < successes new'"
      by auto
    have "set (g_active g') \<subseteq> set (g_active g) \<union> {(item, ph') | ph'. r = Inl ph'}"
    proof (cases r)
      case (Inl ph')
      then have "g_active g' = (g_active g)[k := (item, ph')]" using a(5) by auto
      then show ?thesis
        using set_update_subset_insert[of "g_active g" k "(item, ph')"] Inl by auto
    next
      case (Inr s)
      then have "g_active g' = take k (g_active g) @ drop (Suc k) (g_active g)" using a(5) by auto
      then show ?thesis
        using set_take_subset[of k "g_active g"] set_drop_subset[of "Suc k" "g_active g"] by auto
    qed
    then have "\<forall>(item, ph) \<in> set (g_active g'). after_success ph \<longrightarrow> 0 < successes new'"
      using new(2) new'(2,3) by fastforce
    then show ?thesis using new'(1) a(3) unfolding gate_cadence_def by blast
  qed
qed

lemma run_gate_cadence:
  assumes "run_gate env \<lparr>g_queue = q, g_active = [], g_vars = v\<lparr>v_batchProcessed := 0\<rparr>\<rparr> = AllSettled v' \<or>
           run_gate env \<lparr>g_queue = q, g_active = [], g_vars = v\<lparr>v_batchProcessed := 0\<rparr>\<rparr> = TaskRejected error v'"
  shows "\<exists>new. v_log v' = v_log v @ new \<and>
     cadence_ok (ie_stateUpdateInterval env) (ie_length env) 0 new \<and>
     v_batchProcessed v' = successes new"
proof -
  let ?g = "\<lparr>g_queue = q, g_active = [], g_vars = v\<lparr>v_batchProcessed := 0\<rparr>\<rparr>"
  have "gate_cadence env (v_log v) ?g"
    by (simp add: gate_cadence_def cadence_inv_def)
  then have "\<exists>gf. gate_cadence env (v_log v) gf \<and> gate_step env gf = run_gate env ?g \<and>
     (\<forall>g'. run_gate env ?g \<noteq> Next g')"
    by (rule run_gate_final) (rule gate_step_cadence)
  then obtain gf where gf: "gate_cadence env (v_log v) gf" "gate_step env gf = run_gate env ?g"
    by blast
  from gf(1) obtain new where new: "cadence_inv env (v_log v) (g_vars gf) new"
    "\<forall>(item, ph) \<in> set (g_active gf). after_success ph \<longrightarrow> 0 < successes new"
    by (auto simp: gate_cadence_def)
  from assms show ?thesis
  proof
    assume "run_gate env ?g = AllSettled v'"
    then have "v' = g_vars gf" using gf(2) by (simp add: gate_step_AllSettled)
    then show ?thesis using new(1) by (auto simp: cadence_inv_def)
  next
    assume "run_gate env ?g = TaskRejected error v'"
    then have "gate_step env gf = TaskRejected error v'" using gf(2) by simp
    then obtain k item ph where k: "k < length (g_active gf)" "g_active (tick gf) ! k = (item, ph)"
      "resume env item ph (g_vars (tick gf)) = (v', Inr (Rejected error))"
      by (elim gate_step_Rejected resume_task_Rejected)
    have "(item, ph) \<in> set (g_active gf)" using k(1,2) by (metis active_tick(1) nth_mem)
    then have "after_success ph \<longrightarrow> 0 < successes new" using new(2) by auto
    from resume_cadence[OF k(3) _ this, of "v_log v"] new(1)
    show ?thesis by (auto simp: cadence_inv_def)
  qed
qed

lemma cadence_no_success:
  "cadence_ok n len c l \<Longrightarrow> c + successes l = 0 \<Longrightarrow> state_updates l = []"
  by (induction n len c l rule: cadence_ok.induct) simp_all

definition unresolved :: "('a \<times> 'r phase) list \<Rightarrow> bool" where
  "unresolved active \<longleftrightarrow> (\<forall>(item, ph) \<in> set active. \<forall>x. ph \<noteq> AwaitProcess (Inr x))"

lemma resume_no_success:
  assumes "resume env item ph v = (v', r)" "\<forall>x. ph \<noteq> AwaitProcess (Inr x)"
  shows "successes (v_log v') = successes (v_log v) \<and>
         (\<forall>ph' x. r = Inl ph' \<longrightarrow> ph' \<noteq> AwaitProcess (Inr x))"
  using assms
  by (cases "(env, item, ph, v)" rule: resume.cases)
     (auto simp: catch_block_def Let_def log_event_def refresh_state_def split: if_splits)

lemma gate_step_no_success:
  assumes "\<forall>item index s. \<exists>e. ie_process env item index s = Inl e"
    and "successes (v_log (g_vars g)) = n \<and> unresolved (g_active g)"
    and "gate_step env g = Next g'"
  shows "successes (v_log (g_vars g')) = n \<and> unresolved (g_active g')"
  using assms(3)
proof (cases rule: gate_step_Next)
  case admitted
  obtain index item rest where q: "g_queue g = (index, item) # rest"
    using admitted(1) by (cases "g_queue g") (auto simp: can_admit_def)
  obtain e where "ie_process env item index (v_currentState (g_vars g)) = Inl e"
    using assms(1) by blast
  then show ?thesis
    using assms(2) q admitted(2)
    by (auto simp: admit_def tick_def Let_def log_event_def unresolved_def)
next
  case (resumed k)
  from resumed(2) show ?thesis
  proof (rule resume_task_Next)
    fix item ph v' r
    assume a: "g_active (tick g) ! k = (item, ph)" "resume env item ph (g_vars (tick g)) = (v', r)"
      "g_vars g' = v'" "g_queue g' = g_queue (tick g)"
      "(\<exists>ph'. r = Inl ph' \<and> g_active g' = (g_active (tick g))[k := (item, ph')]) \<or>
       (r = Inr Fulfilled \<and> g_active g' = take k (g_active (tick g)) @ drop (Suc k) (g_active (tick g)))"
    have mem: "(item, ph) \<in> set (g_active g)" using a(1) resumed(1) by (metis active_tick(1) nth_mem)
    then have "\<forall>x. ph \<noteq> AwaitProcess (Inr x)" using assms(2) by (auto simp: unresolved_def)
    from resume_no_success[OF a(2) this]
    have s: "successes (v_log v') = successes (v_log (g_vars (tick g)))"
      "\<forall>ph' x. r = Inl ph' \<longrightarrow> ph' \<noteq> AwaitProcess (Inr x)"
      by simp_all
    have "set (g_active g') \<subseteq> set (g_active g) \<union> {(item, ph') | ph'. r = Inl ph'}"
    proof (cases r)
      case (Inl ph')
      then have "g_active g' = (g_active g)[k := (item, ph')]" using a(5) by auto
      then show ?thesis
        using set_update_subset_insert[of "g_active g" k "(item, ph')"] Inl by auto
    next
      case (Inr s)
      then have "g_active g' = take k (g_active g) @ drop (Suc k) (g_active g)" using a(5) by auto
      then show ?thesis
        using set_take_subset[of k "g_active g"] set_drop_subset[of "Suc k" "g_active g"] by auto
    qed
    then have "unresolved (g_active g')"
      using assms(2) s(2) unfolding unresolved_def by fastforce
    then show ?thesis using s(1) a(3) assms(2) by (simp add: tick_def)
  qed
qed

lemma run_gate_no_success:
  assumes "\<forall>item index s. \<exists>e. ie_process env item index s = Inl e"
    and "run_gate env g = AllSettled v' \<or> run_gate env g = TaskRejected error v'"
    and "g_active g = []"
  shows "successes (v_log v') = successes (v_log (g_vars g))"
proof -
  let ?I = "\<lambda>h. successes (v_log (g_vars h)) = successes (v_log (g_vars g)) \<and> unresolved (g_active h)"
  have "?I g" using assms(3) by (simp add: unresolved_def)
  then have "\<exists>gf. ?I gf \<and> gate_step env gf = run_gate env g \<and> (\<forall>g'. run_gate env g \<noteq> Next g')"
    by (rule run_gate_final) (rule gate_step_no_success[OF assms(1)])
  then obtain gf where gf: "successes (v_log (g_vars gf)) = successes (v_log (g_vars g))"
    "unresolved (g_active gf)" "gate_step env gf = run_gate env g"
    by blast
  from assms(2) show ?thesis
  proof
    assume "run_gate env g = AllSettled v'"
    then have "v' = g_vars gf" using gf(3) by (simp add: gate_step_AllSettled)
    then show ?thesis using gf(1) by simp
  next
    assume "run_gate env g = TaskRejected error v'"
    then have "gate_step env gf = TaskRejected error v'" using gf(3) by simp
    then obtain k item ph where k: "k < length (g_active gf)" "g_active (tick gf) ! k = (item, ph)"
      "resume env item ph (g_vars (tick gf)) = (v', Inr (Rejected error))"
      by (elim gate_step_Rejected resume_task_Rejected)
    have "(item, ph) \<in> set (g_active gf)" using k(1,2) by (metis active_tick(1) nth_mem)
    then have "\<forall>x. ph \<noteq> AwaitProcess (Inr x)" using gf(2) by (auto simp: unresolved_def)
    from resume_no_success[OF k(3) this] show ?thesis using gf(1) by (simp add: tick_def)
  qed
qed

text \<open>The items of a batch, from the start of \<^verbatim>\<open>Promise.all\<close> to its end.\<close>

lemma run_gate_cadence_all:
  assumes "run_gate env \<lparr>g_queue = q, g_active = [], g_vars = v\<lparr>v_batchProcessed := 0\<rparr>\<rparr> = AllSettled v' \<or>
           run_gate env \<lparr>g_queue = q, g_active = [], g_vars = v\<lparr>v_batchProcessed := 0\<rparr>\<rparr> = TaskRejected error v'"
  shows "\<exists>new. v_log v' = v_log v @ new \<and>
     cadence_ok (ie_stateUpdateInterval env) (ie_length env) 0 new \<and>
     v_batchProcessed v' = successes new \<and>
     ((\<forall>item index s. \<exists>e. ie_process env item index s = Inl e) \<longrightarrow>
        successes new = 0 \<and> state_updates new = [])"
proof -
  from run_gate_cadence[OF assms] obtain new where new: "v_log v' = v_log v @ new"
    "cadence_ok (ie_stateUpdateInterval env) (ie_length env) 0 new"
    "v_batchProcessed v' = successes new"
    by blast
  have "successes new = 0 \<and> state_updates new = []"
    if "\<forall>item index s. \<exists>e. ie_process env item index s = Inl e"
  proof -
    from run_gate_no_success[OF that assms] have "successes new = 0" using new(1) by simp
    then show ?thesis using cadence_no_success[OF new(2)] by simp
  qed
  then show ?thesis using new by blast
qed

lemma batch_iteration_updates:
  assumes "batch_iteration options processFunction w items i v = Continue () v'"
  shows "\<exists>new. v_log v' = v_log v @
       OnBatchStart (math_floor_div_plus1 i (with_default 20 (batchSize options)))
         (math_ceil_div (length items) (with_default 20 (batchSize options)))
         (slice items i (i + with_default 20 (batchSize options))) (v_currentState v) # new @
       [OnStateUpdate (v_currentState v')
          (Some (math_floor_div_plus1 i (with_default 20 (batchSize options))))
          (Some (math_ceil_div (length items) (with_default 20 (batchSize options)))),
        OnBatchComplete (math_floor_div_plus1 i (with_default 20 (batchSize options)))
          (math_ceil_div (length items) (with_default 20 (batchSize options)))
          (slice items i (i + with_default 20 (batchSize options)))
          (v_totalProcessed v') (v_totalFailed v') (v_currentState v')] \<and>
     cadence_ok (with_default 5 (stateUpdateInterval options))
       (length (slice items i (i + with_default 20 (batchSize options)))) 0 new \<and>
     ((\<forall>item index s. \<exists>e. processFunction item index s = Inl e) \<longrightarrow> state_updates new = [])"
proof -
  let ?size = "with_default 20 (batchSize options)"
  let ?tb = "math_ceil_div (length items) ?size"
  let ?batch = "slice items i (i + ?size)"
  let ?bn = "math_floor_div_plus1 i ?size"
  let ?env = "batch_env options processFunction w ?batch ?bn ?tb"
  let ?v1 = "log_event (OnBatchStart ?bn ?tb ?batch (v_currentState v)) v"
  let ?k = "\<lambda>v. let v = refresh_state (now w) v
              in await_call (OnStateUpdate (v_currentState v) (Some ?bn) (Some ?tb))
                   (onStateUpdate options (v_currentState v) (Some ?bn) (Some ?tb)) v
         (\<lambda>v. await_call
                (OnBatchComplete ?bn ?tb ?batch (v_totalProcessed v)
                   (v_totalFailed v) (v_currentState v))
                (onBatchComplete options ?bn ?tb ?batch (v_totalProcessed v)
                   (v_totalFailed v) (v_currentState v)) v
              (Continue ()))"
  have "await_all ?env ?batch ?v1 ?k = Continue () v'"
    using assms unfolding batch_iteration_def Let_def by (auto dest!: await_call_Continue)
  then obtain v2 where v2:
    "run_gate ?env \<lparr>g_queue = zip [0..<length ?batch] ?batch, g_active = [],
        g_vars = ?v1\<lparr>v_batchProcessed := 0\<rparr>\<rparr> = AllSettled v2"
    "?k v2 = Continue () v'"
    by (rule await_all_Continue)
  let ?v3 = "refresh_state (now w) v2"
  let ?v4 = "log_event (OnStateUpdate (v_currentState ?v3) (Some ?bn) (Some ?tb)) ?v3"
  have v': "v' = log_event (OnBatchComplete ?bn ?tb ?batch (v_totalProcessed ?v4) (v_totalFailed ?v4)
                (v_currentState ?v4)) ?v4"
    using v2(2) unfolding Let_def by (auto dest!: await_call_Continue)
  from run_gate_cadence_all[OF disjI1[OF v2(1)]]
  have "\<exists>new. v_log v2 = v_log ?v1 @ new \<and>
    cadence_ok (with_default 5 (stateUpdateInterval options)) (length ?batch) 0 new \<and>
    ((\<forall>item index s. \<exists>e. processFunction item index s = Inl e) \<longrightarrow> state_updates new = [])"
    by simp blast
  then obtain new where new: "v_log v2 = v_log ?v1 @ new"
    "cadence_ok (with_default 5 (stateUpdateInterval options)) (length ?batch) 0 new"
    "(\<forall>item index s. \<exists>e. processFunction item index s = Inl e) \<longrightarrow> state_updates new = []"
    by blast
  have "v_log v' = v_log v @ OnBatchStart ?bn ?tb ?batch (v_currentState v) # new @
       [OnStateUpdate (v_currentState v') (Some ?bn) (Some ?tb),
        OnBatchComplete ?bn ?tb ?batch (v_totalProcessed v') (v_totalFailed v') (v_currentState v')]"
    using new(1) by (simp add: v')
  then show ?thesis using new(2,3) by blast
qed

lemma process_page_updates:
  assumes "process_page options processFunction w page pageData pages v = Continue u v'"
    and "page_items pageData \<noteq> []"
  shows "\<exists>new. v_log v' = v_log v @ new @
       [OnStateUpdate (v_currentState v') None None,
        OnPageComplete page pages (int (v_batchProcessed v')) (v_totalProcessed v') (v_currentState v')] \<and>
     cadence_ok (with_default 5 (p_stateUpdateInterval options)) (length (page_items pageData)) 0 new \<and>
     ((\<forall>item index s. \<exists>e. processFunction item index s = Inl e) \<longrightarrow> state_updates new = [])"
proof -
  let ?items = "page_items pageData"
  let ?env = "page_env options processFunction w ?items"
  let ?k = "\<lambda>v. emit_state options
             ((refresh_state (now w) v)
                \<lparr>v_currentState := (v_currentState (refresh_state (now w) v))
                   \<lparr>currentPage := Some (page + 1)\<rparr>\<rparr>)
        (\<lambda>v. await_call
               (OnPageComplete (page + 1 - 1) pages (int (v_batchProcessed v))
                  (v_totalProcessed v) (v_currentState v))
               (p_onPageComplete options (page + 1 - 1) pages (int (v_batchProcessed v))
                  (v_totalProcessed v) (v_currentState v)) v
             (Continue (page + 1, pages)))"
  have "await_all ?env ?items v ?k = Continue u v'"
    using assms by (simp add: process_page_def Let_def)
  then obtain v2 where v2:
    "run_gate ?env \<lparr>g_queue = zip [0..<length ?items] ?items, g_active = [],
        g_vars = v\<lparr>v_batchProcessed := 0\<rparr>\<rparr> = AllSettled v2"
    "?k v2 = Continue u v'"
    by (rule await_all_Continue)
  let ?v3 = "(refresh_state (now w) v2)
                \<lparr>v_currentState := (v_currentState (refresh_state (now w) v2))
                   \<lparr>currentPage := Some (page + 1)\<rparr>\<rparr>"
  let ?v4 = "log_event (OnStateUpdate (v_currentState ?v3) None None) ?v3"
  have v': "v' = log_event (OnPageComplete page pages (int (v_batchProcessed ?v4))
                  (v_totalProcessed ?v4) (v_currentState ?v4)) ?v4"
    using v2(2) by (auto dest!: emit_state_Continue await_call_Continue)
  from run_gate_cadence_all[OF disjI1[OF v2(1)]]
  have "\<exists>new. v_log v2 = v_log v @ new \<and>
    cadence_ok (with_default 5 (p_stateUpdateInterval options)) (length ?items) 0 new \<and>
    ((\<forall>item index s. \<exists>e. processFunction item index s = Inl e) \<longrightarrow> state_updates new = [])"
    by simp blast
  then obtain new where new: "v_log v2 = v_log v @ new"
    "cadence_ok (with_default 5 (p_stateUpdateInterval options)) (length ?items) 0 new"
    "(\<forall>item index s. \<exists>e. processFunction item index s = Inl e) \<longrightarrow> state_updates new = []"
    by blast
  have "v_log v' = v_log v @ new @
       [OnStateUpdate (v_currentState v') None None,
        OnPageComplete page pages (int (v_batchProcessed v')) (v_totalProcessed v') (v_currentState v')]"
    using new(1) by (simp add: v' refresh_state_def)
  then show ?thesis using new(2,3) by blast
qed

subsection \<open>The gates a run passes through\<close>

definition gate_reaches ::
  "('a, 'r, 'x) item_env \<Rightarrow> ('a, 'r, 'x) gate \<Rightarrow> ('a, 'r, 'x) gate \<Rightarrow> bool" where
  "gate_reaches env = rtranclp (\<lambda>g g'. gate_step env g = Next g')"

text \<open>The tasks that have been started, in the order of their \<^verbatim>\<open>processFunction\<close> calls.\<close>

fun admitted :: "('a, 'r, 'x) event list \<Rightarrow> (nat \<times> 'a) list" where
  "admitted [] = []"
| "admitted (e # l) =
     (case e of ProcessCall item index s \<Rightarrow> [(index, item)] | _ \<Rightarrow> []) @ admitted l"

lemma admitted_append [simp]: "admitted (l @ l') = admitted l @ admitted l'"
  by (induction l) simp_all

lemma gate_reaches_refl [simp]: "gate_reaches env g g"
  by (simp add: gate_reaches_def)

lemma gate_reaches_step:
  "gate_reaches env g g' \<Longrightarrow> gate_step env g' = Next g'' \<Longrightarrow> gate_reaches env g g''"
  unfolding gate_reaches_def by (rule rtranclp.rtrancl_into_rtrancl)

lemma gate_reaches_induct [consumes 1, case_names base step]:
  assumes "gate_reaches env g g'" "P g"
    and "\<And>h h'. gate_reaches env g h \<Longrightarrow> gate_step env h = Next h' \<Longrightarrow> P h \<Longrightarrow> P h'"
  shows "P g'"
  using assms(1) unfolding gate_reaches_def
  by (induction rule: rtranclp_induct) (auto intro: assms(2,3) simp: gate_reaches_def)

lemma resume_admitted:
  "resume env item ph v = (v', r) \<Longrightarrow> \<exists>es. v_log v' = v_log v @ es \<and> admitted es = []"
  by (cases "(env, item, ph, v)" rule: resume.cases)
     (auto simp: catch_block_def Let_def log_event_def refresh_state_def split: if_splits)

lemma gate_step_bound:
  assumes "gate_step env g = Next g'" "length (g_active g) \<le> ie_limit env"
  shows "length (g_active g') \<le> ie_limit env"
  using assms(1)
proof (cases rule: gate_step_Next)
  case admitted
  obtain index item rest where q: "g_queue g = (index, item) # rest"
    using admitted(1) by (cases "g_queue g") (auto simp: can_admit_def)
  have "length (g_active g) < ie_limit env" using admitted(1) by (simp add: can_admit_def)
  then show ?thesis using q admitted(2) by (simp add: admit_def tick_def Let_def)
next
  case (resumed k)
  from resumed(2) show ?thesis
    by (rule resume_task_Next) (use assms(2) in auto)
qed

lemma gate_step_fifo:
  assumes "gate_step env g = Next g'" "v_log (g_vars g) = l0 @ new" "admitted new @ g_queue g = q"
  shows "\<exists>new'. v_log (g_vars g') = l0 @ new' \<and> admitted new' @ g_queue g' = q"
  using assms(1)
proof (cases rule: gate_step_Next)
  case admitted
  obtain index item rest where q: "g_queue g = (index, item) # rest"
    using admitted(1) by (cases "g_queue g") (auto simp: can_admit_def)
  let ?e = "ProcessCall item index (v_currentState (g_vars g))"
  have "v_log (g_vars g') = l0 @ (new @ [?e])" "admitted (new @ [?e]) @ g_queue g' = q"
    using q admitted(2) assms(2,3) by (simp_all add: admit_def tick_def Let_def log_event_def)
  then show ?thesis by blast
next
  case (resumed k)
  from resumed(2) show ?thesis
  proof (rule resume_task_Next)
    fix item ph v' r
    assume a: "resume env item ph (g_vars (tick g)) = (v', r)" "g_vars g' = v'"
      "g_queue g' = g_queue (tick g)"
    from resume_admitted[OF a(1)] obtain es where
      es: "v_log v' = v_log (g_vars (tick g)) @ es" "admitted es = []"
      by blast
    have "v_log (g_vars g') = l0 @ (new @ es)" "admitted (new @ es) @ g_queue g' = q"
      using es a(2,3) assms(2,3) by (simp_all add: tick_def)
    then show ?thesis by blast
  qed
qed

lemma gate_reaches_bound:
  assumes "gate_reaches env \<lparr>g_queue = q, g_active = [], g_vars = v\<rparr> g"
  shows "length (g_active g) \<le> ie_limit env \<and>
         (\<exists>new. v_log (g_vars g) = v_log v @ new \<and> admitted new @ g_queue g = q)"
  using assms
proof (induction rule: gate_reaches_induct)
  case base
  show ?case by simp
next
  case (step h h')
  then show ?case using gate_step_bound[of env h h'] gate_step_fifo[of env h h' "v_log v" _ q]
    by blast
qed

lemma run_gate_reaches:
  "\<exists>gf. gate_reaches env g gf \<and> gate_step env gf = run_gate env g"
proof -
  have "\<exists>gf. gate_reaches env g gf \<and> gate_step env gf = run_gate env g \<and>
      (\<forall>g'. run_gate env g \<noteq> Next g')"
    by (rule run_gate_final[where I = "gate_reaches env g"]) (auto intro: gate_reaches_step)
  then show ?thesis by blast
qed

subsection \<open>Iterations always end\<close>

lemma run_gate_not_Next: "run_gate env g \<noteq> Next g'"
  using run_gate_final[of "\<lambda>h. True" g env] by auto

lemma run_gate_NeverSettles: "run_gate env g = NeverSettles \<Longrightarrow> ie_limit env = 0"
  using run_gate_final[of "\<lambda>h. True" g env] by (auto simp: gate_step_NeverSettles)

lemma await_call_not_Stuck: "(\<And>v'. k v' \<noteq> Stuck) \<Longrightarrow> await_call e r v k \<noteq> Stuck"
  by (cases r) (simp_all add: await_call_def)

lemma emit_state_not_Stuck: "(\<And>v'. k v' \<noteq> Stuck) \<Longrightarrow> emit_state options v k \<noteq> Stuck"
  unfolding emit_state_def by (rule await_call_not_Stuck)

lemma await_all_not_Stuck:
  assumes "\<And>v'. k v' \<noteq> Stuck"
  shows "await_all env batch v k \<noteq> Stuck"
proof (cases "ie_limit env = 0")
  case True
  then show ?thesis by (simp add: await_all_def)
next
  case False
  let ?g = "\<lparr>g_queue = zip [0..<length batch] batch, g_active = [], g_vars = v\<lparr>v_batchProcessed := 0\<rparr>\<rparr>"
  show ?thesis
  proof (cases "run_gate env ?g")
    case (Next g')
    then show ?thesis using run_gate_not_Next[of env ?g g'] by simp
  next
    case NeverSettles
    then show ?thesis using run_gate_NeverSettles[of env ?g] False by simp
  qed (use assms False in \<open>simp_all add: await_all_def\<close>)
qed

lemma process_page_not_Stuck:
  "process_page options processFunction w page pageData pages v \<noteq> Stuck"
  unfolding process_page_def Let_def
  by (auto intro!: emit_state_not_Stuck await_all_not_Stuck await_call_not_Stuck)

lemma sync_totalPages_not_Stuck:
  "(\<And>n v'. k n v' \<noteq> Stuck) \<Longrightarrow> sync_totalPages options pageData pages v k \<noteq> Stuck"
  unfolding sync_totalPages_def
  by (auto intro!: emit_state_not_Stuck split: option.splits)

lemma page_iteration_not_Stuck:
  "page_iteration options fetchPageFunction processFunction w page pages v \<noteq> Stuck"
proof -
  have "sync_totalPages options pageData pages v'
      (process_page options processFunction w page pageData) \<noteq> Stuck" for pageData v'
    by (rule sync_totalPages_not_Stuck) (rule process_page_not_Stuck)
  then show ?thesis
    unfolding page_iteration_def
    by (intro await_call_not_Stuck) (simp split: sum.splits)
qed

lemma batch_iteration_not_Stuck:
  "batch_iteration options processFunction w items i v \<noteq> Stuck"
  unfolding batch_iteration_def Let_def
  by (auto intro!: await_call_not_Stuck await_all_not_Stuck)

subsection \<open>The items of a batch, one at a time\<close>

text \<open>
  What the specification says of one item, when nothing else runs in between: the
  item is handed to \<^verbatim>\<open>process\<close>; on success the counters are raised, \<^verbatim>\<open>onItemSuccess\<close> is
  called and, if the success counter of the batch is a multiple of the interval or
  equals the batch length, the snapshot is replaced (new counters, fresh
  \<^verbatim>\<open>lastUpdated\<close>) and \<^verbatim>\<open>onStateUpdate\<close> is called; on failure \<^verbatim>\<open>totalFailed\<close> is raised
  and \<^verbatim>\<open>onItemError\<close> is called, and nothing else.
\<close>

definition spec_item ::
  "('a, 'r, 'x) item_env \<Rightarrow> ('a, 'r, 'x) vars \<Rightarrow> nat \<times> 'a \<Rightarrow> ('a, 'r, 'x) vars" where
  "spec_item env v t =
     (let index = fst t; item = snd t; cs = v_currentState v;
          called = log_event (ProcessCall item index cs) v
      in case ie_process env item index cs of
           Inl error \<Rightarrow>
             log_event (OnItemError item (as_Error error) (v_totalFailed v + 1) cs)
               (called\<lparr>v_totalFailed := v_totalFailed v + 1\<rparr>)
         | Inr result \<Rightarrow>
             (let counted = log_event (OnItemSuccess item result (v_totalProcessed v + 1) cs)
                    (called\<lparr>v_totalProcessed := v_totalProcessed v + 1,
                            v_batchProcessed := v_batchProcessed v + 1\<rparr>);
                  c = v_batchProcessed v + 1
              in if ie_stateUpdateInterval env dvd c \<or> c = ie_length env
                 then (let s = cs\<lparr>totalProcessed := Some (v_totalProcessed v + 1),
                                   totalFailed := Some (v_totalFailed v),
                                   lastUpdated := Some (ie_now env (v_clock v))\<rparr>
                       in log_event (OnStateUpdate s (ie_batchNumber env) (ie_totalBatches env))
                            (counted\<lparr>v_currentState := s, v_clock := v_clock v + 1\<rparr>))
                 else counted))"

lemma spec_item_steps:
  "spec_item env (v\<lparr>v_steps := n\<rparr>) t = (spec_item env v t)\<lparr>v_steps := n\<rparr>"
  by (simp add: spec_item_def Let_def log_event_def split: sum.splits)

lemma foldl_spec_item_steps:
  "foldl (spec_item env) (v\<lparr>v_steps := n\<rparr>) q = (foldl (spec_item env) v q)\<lparr>v_steps := n\<rparr>"
  by (induction q arbitrary: v) (simp_all add: spec_item_steps)

lemma update_due_next:
  "update_due env (Suc c) \<longleftrightarrow> ie_stateUpdateInterval env dvd Suc c \<or> Suc c = ie_length env"
  by (cases "ie_stateUpdateInterval env = 0") (auto simp: update_due_def dvd_eq_mod_eq_0)

lemma sequential_item:
  assumes "quiet_env env" "ie_limit env = 1"
  shows "\<exists>n. run_gate env \<lparr>g_queue = (index, item) # rest, g_active = [], g_vars = v\<rparr> =
              run_gate env \<lparr>g_queue = rest, g_active = [],
                            g_vars = (spec_item env v (index, item))\<lparr>v_steps := n\<rparr>\<rparr>"
proof -
  let ?cs = "v_currentState v"
  let ?g0 = "\<lparr>g_queue = (index, item) # rest, g_active = [], g_vars = v\<rparr>"
  let ?v1 = "log_event (ProcessCall item index ?cs) (v\<lparr>v_steps := v_steps v + 1\<rparr>)"
  let ?g1 = "\<lparr>g_queue = rest, g_active = [(item, AwaitProcess (ie_process env item index ?cs))],
      g_vars = ?v1\<rparr>"
  have q: "ie_onItemSuccess env a b c d = None" "ie_onItemError env a e c d = None"
    "ie_onStateUpdate env s bn tb = None" for a b c d e s bn tb
    using assms(1) by (simp_all add: quiet_env_def)
  have s1: "run_gate env ?g0 = run_gate env ?g1"
      proof -
        have "gate_step env ?g0 = Next ?g1"
          by (simp add: gate_step_def can_admit_def assms(2) admit_def tick_def Let_def)
        then show ?thesis by (subst run_gate.simps) simp
      qed
  show ?thesis
  proof (cases "ie_process env item index ?cs")
    case (Inl error)
    let ?v2 = "log_event (OnItemError item (as_Error error) (v_totalFailed v + 1) ?cs)
        (?v1\<lparr>v_totalFailed := v_totalFailed v + 1, v_steps := v_steps v + 2\<rparr>)"
    let ?g2 = "\<lparr>g_queue = rest, g_active = [(item, AwaitItemError None)], g_vars = ?v2\<rparr>"
    have s2: "run_gate env ?g1 = run_gate env ?g2"
      proof -
        have "gate_step env ?g1 = Next ?g2"
          by (simp add: gate_step_def can_admit_def assms(2) tick_def Let_def resume_task_def Inl
            catch_block_def q log_event_def)
        then show ?thesis by (subst run_gate.simps) simp
      qed
    have s3: "run_gate env ?g2 = run_gate env \<lparr>g_queue = rest, g_active = [],
        g_vars = ?v2\<lparr>v_steps := v_steps v + 3\<rparr>\<rparr>"
      proof -
        have "gate_step env ?g2 = Next \<lparr>g_queue = rest, g_active = [],
        g_vars = ?v2\<lparr>v_steps := v_steps v + 3\<rparr>\<rparr>"
          by (simp add: gate_step_def can_admit_def assms(2) tick_def Let_def resume_task_def
            log_event_def)
        then show ?thesis by (subst run_gate.simps) simp
      qed
    have "?v2\<lparr>v_steps := v_steps v + 3\<rparr> = (spec_item env v (index, item))\<lparr>v_steps := v_steps v + 3\<rparr>"
      by (simp add: spec_item_def Let_def Inl log_event_def)
    then show ?thesis using s1 s2 s3 by metis
  next
    case (Inr result)
    let ?v2 = "log_event (OnItemSuccess item result (v_totalProcessed v + 1) ?cs)
        (?v1\<lparr>v_totalProcessed := v_totalProcessed v + 1,
              v_batchProcessed := v_batchProcessed v + 1, v_steps := v_steps v + 2\<rparr>)"
    let ?g2 = "\<lparr>g_queue = rest, g_active = [(item, AwaitItemSuccess result None)], g_vars = ?v2\<rparr>"
    have s2: "run_gate env ?g1 = run_gate env ?g2"
      proof -
        have "gate_step env ?g1 = Next ?g2"
          by (simp add: gate_step_def can_admit_def assms(2) tick_def Let_def resume_task_def Inr
            q log_event_def)
        then show ?thesis by (subst run_gate.simps) simp
      qed
    show ?thesis
    proof (cases "ie_stateUpdateInterval env dvd Suc (v_batchProcessed v) \<or>
                  Suc (v_batchProcessed v) = ie_length env")
      case False
      then have nd: "\<not> update_due env (Suc (v_batchProcessed v))" by (simp add: update_due_next)
      have s3: "run_gate env ?g2 = run_gate env \<lparr>g_queue = rest, g_active = [],
          g_vars = ?v2\<lparr>v_steps := v_steps v + 3\<rparr>\<rparr>"
      proof -
        have "gate_step env ?g2 = Next \<lparr>g_queue = rest, g_active = [],
          g_vars = ?v2\<lparr>v_steps := v_steps v + 3\<rparr>\<rparr>"
          using nd by (simp add: gate_step_def can_admit_def assms(2) tick_def Let_def resume_task_def
              log_event_def)
        then show ?thesis by (subst run_gate.simps) simp
      qed
      have "?v2\<lparr>v_steps := v_steps v + 3\<rparr> = (spec_item env v (index, item))\<lparr>v_steps := v_steps v + 3\<rparr>"
        using False by (simp add: spec_item_def Let_def Inr log_event_def)
      then show ?thesis using s1 s2 s3 by metis
    next
      case True
      then have d: "update_due env (Suc (v_batchProcessed v))" by (simp add: update_due_next)
      let ?s = "?cs\<lparr>totalProcessed := Some (v_totalProcessed v + 1),
                     totalFailed := Some (v_totalFailed v),
                     lastUpdated := Some (ie_now env (v_clock v))\<rparr>"
      let ?v3 = "log_event (OnStateUpdate ?s (ie_batchNumber env) (ie_totalBatches env))
          (?v2\<lparr>v_currentState := ?s, v_clock := v_clock v + 1, v_steps := v_steps v + 3\<rparr>)"
      let ?g3 = "\<lparr>g_queue = rest, g_active = [(item, AwaitStateUpdate result None)], g_vars = ?v3\<rparr>"
      have s3: "run_gate env ?g2 = run_gate env ?g3"
      proof -
        have "gate_step env ?g2 = Next ?g3"
          using d by (simp add: gate_step_def can_admit_def assms(2) tick_def Let_def resume_task_def
              log_event_def refresh_state_def q)
        then show ?thesis by (subst run_gate.simps) simp
      qed
      have s4: "run_gate env ?g3 = run_gate env \<lparr>g_queue = rest, g_active = [],
          g_vars = ?v3\<lparr>v_steps := v_steps v + 4\<rparr>\<rparr>"
      proof -
        have "gate_step env ?g3 = Next \<lparr>g_queue = rest, g_active = [],
          g_vars = ?v3\<lparr>v_steps := v_steps v + 4\<rparr>\<rparr>"
          by (simp add: gate_step_def can_admit_def assms(2) tick_def Let_def resume_task_def
              log_event_def)
        then show ?thesis by (subst run_gate.simps) simp
      qed
      have "?v3\<lparr>v_steps := v_steps v + 4\<rparr> = (spec_item env v (index, item))\<lparr>v_steps := v_steps v + 4\<rparr>"
        using True by (simp add: spec_item_def Let_def Inr log_event_def)
      then show ?thesis using s1 s2 s3 s4 by metis
    qed
  qed
qed

lemma sequential_run:
  assumes "quiet_env env" "ie_limit env = 1"
  shows "\<exists>n. run_gate env \<lparr>g_queue = q, g_active = [], g_vars = v\<rparr> =
              AllSettled ((foldl (spec_item env) v q)\<lparr>v_steps := n\<rparr>)"
proof (induction q arbitrary: v)
  case Nil
  have "run_gate env \<lparr>g_queue = [], g_active = [], g_vars = v\<rparr> = AllSettled v"
    by (subst run_gate.simps) (simp add: gate_step_def can_admit_def Let_def)
  then have "run_gate env \<lparr>g_queue = [], g_active = [], g_vars = v\<rparr> =
      AllSettled ((foldl (spec_item env) v [])\<lparr>v_steps := v_steps v\<rparr>)"
    by simp
  then show ?case by blast
next
  case (Cons t q)
  obtain index item where t: "t = (index, item)" by (cases t)
  from sequential_item[OF assms, of index item q v] obtain n where
    n: "run_gate env \<lparr>g_queue = t # q, g_active = [], g_vars = v\<rparr> =
        run_gate env \<lparr>g_queue = q, g_active = [], g_vars = (spec_item env v t)\<lparr>v_steps := n\<rparr>\<rparr>"
    unfolding t by blast
  from Cons[of "(spec_item env v t)\<lparr>v_steps := n\<rparr>"] obtain m where
    "run_gate env \<lparr>g_queue = q, g_active = [], g_vars = (spec_item env v t)\<lparr>v_steps := n\<rparr>\<rparr> =
     AllSettled ((foldl (spec_item env) ((spec_item env v t)\<lparr>v_steps := n\<rparr>) q)\<lparr>v_steps := m\<rparr>)"
    by blast
  then have "run_gate env \<lparr>g_queue = t # q, g_active = [], g_vars = v\<rparr> =
     AllSettled ((foldl (spec_item env) v (t # q))\<lparr>v_steps := m\<rparr>)"
    using n by (simp add: foldl_spec_item_steps)
  then show ?case by blast
qed

lemma v_log_steps [simp]: "v_log (v\<lparr>v_steps := n\<rparr>) = v_log v"
  by simp

lemma batch_iteration_sequential:
  assumes "quiet options" "with_default 10 (concurrencyLimit options) = 1"
  shows "\<exists>v'. batch_iteration options processFunction w items i v = Continue () v' \<and>
     v_log v' =
       v_log (foldl (spec_item (batch_env options processFunction w
                  (slice items i (i + with_default 20 (batchSize options)))
                  (math_floor_div_plus1 i (with_default 20 (batchSize options)))
                  (math_ceil_div (length items) (with_default 20 (batchSize options)))))
                ((log_event (OnBatchStart
                     (math_floor_div_plus1 i (with_default 20 (batchSize options)))
                     (math_ceil_div (length items) (with_default 20 (batchSize options)))
                     (slice items i (i + with_default 20 (batchSize options)))
                     (v_currentState v)) v)\<lparr>v_batchProcessed := 0\<rparr>)
                (zip [0..<length (slice items i (i + with_default 20 (batchSize options)))]
                   (slice items i (i + with_default 20 (batchSize options))))) @
       [OnStateUpdate (v_currentState v')
          (Some (math_floor_div_plus1 i (with_default 20 (batchSize options))))
          (Some (math_ceil_div (length items) (with_default 20 (batchSize options)))),
        OnBatchComplete (math_floor_div_plus1 i (with_default 20 (batchSize options)))
          (math_ceil_div (length items) (with_default 20 (batchSize options)))
          (slice items i (i + with_default 20 (batchSize options)))
          (v_totalProcessed v') (v_totalFailed v') (v_currentState v')]"
proof -
  let ?size = "with_default 20 (batchSize options)"
  let ?tb = "math_ceil_div (length items) ?size"
  let ?batch = "slice items i (i + ?size)"
  let ?bn = "math_floor_div_plus1 i ?size"
  let ?env = "batch_env options processFunction w ?batch ?bn ?tb"
  let ?v1 = "(log_event (OnBatchStart ?bn ?tb ?batch (v_currentState v)) v)\<lparr>v_batchProcessed := 0\<rparr>"
  let ?q = "zip [0..<length ?batch] ?batch"
  have q: "quiet_env ?env" by (rule quiet_batch_env[OF assms(1)])
  have l: "ie_limit ?env = 1" using assms(2) by simp
  from sequential_run[OF q l, of ?q ?v1] obtain n where
    n: "run_gate ?env \<lparr>g_queue = ?q, g_active = [], g_vars = ?v1\<rparr> =
        AllSettled ((foldl (spec_item ?env) ?v1 ?q)\<lparr>v_steps := n\<rparr>)"
    by blast
  let ?v2 = "(foldl (spec_item ?env) ?v1 ?q)\<lparr>v_steps := n\<rparr>"
  let ?v3 = "refresh_state (now w) ?v2"
  let ?v4 = "log_event (OnStateUpdate (v_currentState ?v3) (Some ?bn) (Some ?tb)) ?v3"
  let ?v5 = "log_event (OnBatchComplete ?bn ?tb ?batch (v_totalProcessed ?v4) (v_totalFailed ?v4)
                (v_currentState ?v4)) ?v4"
  have "batch_iteration options processFunction w items i v = Continue () ?v5"
    using assms n by (simp add: batch_iteration_def Let_def await_call_def await_all_def quiet_def)
  moreover have "v_log ?v5 = v_log (foldl (spec_item ?env) ?v1 ?q) @
       [OnStateUpdate (v_currentState ?v5) (Some ?bn) (Some ?tb),
        OnBatchComplete ?bn ?tb ?batch (v_totalProcessed ?v5) (v_totalFailed ?v5) (v_currentState ?v5)]"
    by simp
  ultimately show ?thesis by blast
qed

lemma process_page_sequential:
  assumes "quiet_paged options" "with_default 10 (p_concurrencyLimit options) = 1"
    and "page_items pageData \<noteq> []"
  shows "\<exists>v'. process_page options processFunction w page pageData pages v =
       Continue (page + 1, pages) v' \<and>
     v_log v' =
       v_log (foldl (spec_item (page_env options processFunction w (page_items pageData)))
                (v\<lparr>v_batchProcessed := 0\<rparr>)
                (zip [0..<length (page_items pageData)] (page_items pageData))) @
       [OnStateUpdate (v_currentState v') None None,
        OnPageComplete page pages (int (v_batchProcessed v')) (v_totalProcessed v')
          (v_currentState v')]"
proof -
  let ?items = "page_items pageData"
  let ?env = "page_env options processFunction w ?items"
  let ?q = "zip [0..<length ?items] ?items"
  let ?v1 = "v\<lparr>v_batchProcessed := 0\<rparr>"
  have q: "quiet_env ?env" by (rule quiet_page_env[OF assms(1)])
  have l: "ie_limit ?env = 1" using assms(2) by simp
  from sequential_run[OF q l, of ?q ?v1] obtain n where
    n: "run_gate ?env \<lparr>g_queue = ?q, g_active = [], g_vars = ?v1\<rparr> =
        AllSettled ((foldl (spec_item ?env) ?v1 ?q)\<lparr>v_steps := n\<rparr>)"
    by blast
  let ?v2 = "(foldl (spec_item ?env) ?v1 ?q)\<lparr>v_steps := n\<rparr>"
  let ?v3 = "(refresh_state (now w) ?v2)
                \<lparr>v_currentState := (v_currentState (refresh_state (now w) ?v2))
                   \<lparr>currentPage := Some (page + 1)\<rparr>\<rparr>"
  let ?v4 = "log_event (OnStateUpdate (v_currentState ?v3) None None) ?v3"
  let ?v5 = "log_event (OnPageComplete page pages (int (v_batchProcessed ?v4))
                  (v_totalProcessed ?v4) (v_currentState ?v4)) ?v4"
  have "process_page options processFunction w page pageData pages v = Continue (page + 1, pages) ?v5"
    using assms n
    by (simp add: process_page_def Let_def await_all_def emit_state_def await_call_def quiet_paged_def)
  moreover have "v_log ?v5 = v_log (foldl (spec_item ?env) ?v1 ?q) @
       [OnStateUpdate (v_currentState ?v5) None None,
        OnPageComplete page pages (int (v_batchProcessed ?v5)) (v_totalProcessed ?v5)
          (v_currentState ?v5)]"
    by (simp add: refresh_state_def)
  ultimately show ?thesis by blast
qed

subsection \<open>The update at the last success of a batch\<close>

fun on_success_path :: "'r phase \<Rightarrow> bool" where
  "on_success_path (AwaitProcess (Inr r)) = True"
| "on_success_path (AwaitItemSuccess r None) = True"
| "on_success_path (AwaitStateUpdate r None) = True"
| "on_success_path _ = False"

fun check_weight :: "'r phase \<Rightarrow> int" where
  "check_weight (AwaitProcess outcome) = 1"
| "check_weight (AwaitItemSuccess r c) = 1"
| "check_weight _ = 0"

text \<open>
  \<open>last_update_seen n l\<close>: the log \<open>l\<close> has an \<^verbatim>\<open>onStateUpdate\<close> call that comes after
  \<open>n\<close> calls of \<^verbatim>\<open>onItemSuccess\<close>.
\<close>

definition last_update_seen :: "nat \<Rightarrow> ('a, 'r, 'x) event list \<Rightarrow> bool" where
  "last_update_seen n l \<longleftrightarrow> (\<exists>a e b. l = a @ e # b \<and> is_state_update e \<and> successes a = n)"

definition to_check :: "('a, 'r, 'x) gate \<Rightarrow> int" where
  "to_check g = int (length (g_queue g)) + sum_list (map (\<lambda>(item, ph). check_weight ph) (g_active g))"

definition in_process :: "('a, 'r, 'x) gate \<Rightarrow> int" where
  "in_process g = int (length (g_queue g)) + sum_list (map (\<lambda>(item, ph). resolving_weight ph) (g_active g))"

definition live_inv ::
  "('a, 'r, 'x) item_env \<Rightarrow> ('a, 'r, 'x) event list \<Rightarrow> ('a, 'r, 'x) gate \<Rightarrow> bool" where
  "live_inv env l0 g \<longleftrightarrow>
     (\<exists>new. v_log (g_vars g) = l0 @ new \<and> v_batchProcessed (g_vars g) = successes new \<and>
        list_all (\<lambda>(item, ph). on_success_path ph) (g_active g) \<and>
        int (successes new) + in_process g = int (ie_length env) \<and>
        (to_check g = 0 \<longrightarrow> ie_length env = 0 \<or> last_update_seen (ie_length env) new))"

lemma weights_nonneg:
  "0 \<le> sum_list (map (\<lambda>(item, ph). resolving_weight ph) xs)"
  "sum_list (map (\<lambda>(item, ph). resolving_weight ph) xs) \<le>
     sum_list (map (\<lambda>(item, ph). check_weight ph) xs)"
proof (induction xs)
  case Nil
  {
    case 1 show ?case by simp
  next
    case 2 show ?case by simp
  }
next
  case (Cons x xs)
  obtain item ph where x: "x = (item, ph)" by (cases x)
  have "0 \<le> resolving_weight ph" "resolving_weight ph \<le> check_weight ph"
    by (cases ph rule: resolving_weight.cases; simp)+
  {
    case 1 then show ?case using Cons(1) x \<open>0 \<le> resolving_weight ph\<close> by simp
  next
    case 2 then show ?case using Cons(2) x \<open>resolving_weight ph \<le> check_weight ph\<close> by simp
  }
qed

lemma to_check_zero: "to_check g = 0 \<Longrightarrow> in_process g = 0"
  using weights_nonneg[of "g_active g"] by (simp add: to_check_def in_process_def)

lemma gate_step_live:
  assumes q: "quiet_env env"
    and res: "\<forall>item index s. \<exists>r. ie_process env item index s = Inr r"
    and inv: "live_inv env l0 g"
    and step: "gate_step env g = Next g'"
  shows "live_inv env l0 g'"
  using step
proof (cases rule: gate_step_Next)
  case admitted
  from inv obtain new where new: "v_log (g_vars g) = l0 @ new"
    "v_batchProcessed (g_vars g) = successes new"
    "list_all (\<lambda>(item, ph). on_success_path ph) (g_active g)"
    "int (successes new) + in_process g = int (ie_length env)"
    by (auto simp: live_inv_def)
  obtain index item rest where qu: "g_queue g = (index, item) # rest"
    using admitted(1) by (cases "g_queue g") (auto simp: can_admit_def)
  obtain r where r: "ie_process env item index (v_currentState (g_vars g)) = Inr r"
    using res by blast
  let ?e = "ProcessCall item index (v_currentState (g_vars g))"
  have g': "g_queue g' = rest" "g_active g' = g_active g @ [(item, AwaitProcess (Inr r))]"
    "v_log (g_vars g') = l0 @ (new @ [?e])" "v_batchProcessed (g_vars g') = successes (new @ [?e])"
    using qu r new(1,2) admitted(2) by (simp_all add: admit_def tick_def Let_def log_event_def)
  have "list_all (\<lambda>(item, ph). on_success_path ph) (g_active g')" using new(3) g'(2) by simp
  moreover have "int (successes (new @ [?e])) + in_process g' = int (ie_length env)"
    using new(4) g'(1,2) qu by (simp add: in_process_def)
  moreover have "to_check g' \<noteq> 0"
    using weights_nonneg[of "g_active g"] g'(1,2)
    by (simp add: to_check_def)
  ultimately show ?thesis unfolding live_inv_def using g'(3,4) by blast
next
  case (resumed k)
  from inv obtain new where new: "v_log (g_vars g) = l0 @ new"
    "v_batchProcessed (g_vars g) = successes new"
    "list_all (\<lambda>(item, ph). on_success_path ph) (g_active g)"
    "int (successes new) + in_process g = int (ie_length env)"
    "to_check g = 0 \<longrightarrow> ie_length env = 0 \<or> last_update_seen (ie_length env) new"
    by (auto simp: live_inv_def)
  have cb: "ie_onItemSuccess env a b c d = None" "ie_onStateUpdate env s bn tb = None"
    for a b c d s bn tb
    using q by (simp_all add: quiet_env_def)
  from resumed(2) show ?thesis
  proof (rule resume_task_Next)
    fix item ph v' r
    assume a: "g_active (tick g) ! k = (item, ph)" "resume env item ph (g_vars (tick g)) = (v', r)"
      "g_vars g' = v'" "g_queue g' = g_queue (tick g)"
      "(\<exists>ph'. r = Inl ph' \<and> g_active g' = (g_active (tick g))[k := (item, ph')]) \<or>
       (r = Inr Fulfilled \<and> g_active g' = take k (g_active (tick g)) @ drop (Suc k) (g_active (tick g)))"
    have nth: "g_active g ! k = (item, ph)" using a(1) by simp
    have path: "on_success_path ph"
      using new(3) nth resumed(1) by (auto simp: list_all_length)
    have qu: "g_queue g' = g_queue g" using a(4) by simp
    have upd: "sum_list (map f ((g_active g)[k := (item, ph')])) =
        sum_list (map f (g_active g)) - f (item, ph) + f (item, ph')" for f :: "_ \<Rightarrow> int" and ph'
      using sum_list_update_int[OF resumed(1), of f "(item, ph')"] nth by simp
    have rem: "sum_list (map f (take k (g_active g))) + sum_list (map f (drop (Suc k) (g_active g))) =
        sum_list (map f (g_active g)) - f (item, ph)" for f :: "_ \<Rightarrow> int"
      using sum_list_remove_int[OF resumed(1), of f] nth by simp
    from path show ?thesis
    proof (cases ph rule: on_success_path.cases)
      case (1 res')
      let ?e = "OnItemSuccess item res' (v_totalProcessed (g_vars g) + 1) (v_currentState (g_vars g))"
      have r: "r = Inl (AwaitItemSuccess res' None)" "v_log v' = l0 @ (new @ [?e])"
        "v_batchProcessed v' = successes (new @ [?e])"
        using a(2) 1 cb new(1,2) by (auto simp: tick_def Let_def log_event_def)
      then have act: "g_active g' = (g_active g)[k := (item, AwaitItemSuccess res' None)]"
        using a(5) by auto
      have "list_all (\<lambda>(item, ph). on_success_path ph) (g_active g')"
        unfolding act using new(3) by (intro list_all_update) simp_all
      moreover have "int (successes (new @ [?e])) + in_process g' = int (ie_length env)"
        using new(4) qu 1 by (simp add: in_process_def act upd)
      moreover have "to_check g' = to_check g"
        using qu 1 by (simp add: to_check_def act upd)
      moreover have "to_check g \<noteq> 0"
      proof
        assume "to_check g = 0"
        then have "in_process g = 0" by (rule to_check_zero)
        moreover have "1 \<le> sum_list (map (\<lambda>(item, ph). resolving_weight ph) (g_active g))"
          using upd[of "\<lambda>(item, ph). resolving_weight ph" "AwaitItemSuccess res' None"] 1
            weights_nonneg(1)[of "(g_active g)[k := (item, AwaitItemSuccess res' None)]"]
          by simp
        ultimately show False by (simp add: in_process_def)
      qed
      ultimately show ?thesis unfolding live_inv_def using r(2,3) a(3) by auto
    next
      case (2 res')
      show ?thesis
      proof (cases "update_due env (successes new)")
        case True
        let ?e = "OnStateUpdate (v_currentState (refresh_state (ie_now env) (g_vars (tick g))))
            (ie_batchNumber env) (ie_totalBatches env)"
        have r: "r = Inl (AwaitStateUpdate res' None)" "v_log v' = l0 @ (new @ [?e])"
          "v_batchProcessed v' = successes (new @ [?e])"
          using a(2) 2 cb new(1,2) True
          by (auto simp: tick_def Let_def log_event_def refresh_state_def)
        then have act: "g_active g' = (g_active g)[k := (item, AwaitStateUpdate res' None)]"
          using a(5) by auto
        have "list_all (\<lambda>(item, ph). on_success_path ph) (g_active g')"
          unfolding act using new(3) by (intro list_all_update) simp_all
        moreover have ip: "in_process g' = in_process g"
          using qu 2 by (simp add: in_process_def act upd)
        then have "int (successes (new @ [?e])) + in_process g' = int (ie_length env)"
          using new(4) by simp
        moreover have "last_update_seen (ie_length env) (new @ [?e])" if "to_check g' = 0"
        proof -
          have "in_process g' = 0" using that by (rule to_check_zero)
          then have "successes new = ie_length env" using new(4) ip by simp
          then show ?thesis unfolding last_update_seen_def
            by (intro exI[of _ new] exI[of _ ?e] exI[of _ "[]"]) simp
        qed
        ultimately show ?thesis unfolding live_inv_def using r(2,3) a(3) by auto
      next
        case False
        have r: "r = Inr Fulfilled" "v_log v' = l0 @ new" "v_batchProcessed v' = successes new"
          using a(2) 2 new(1,2) False by (auto simp: tick_def)
        then have act: "g_active g' = take k (g_active g) @ drop (Suc k) (g_active g)"
          using a(5) by auto
        have "list_all (\<lambda>(item, ph). on_success_path ph) (g_active g')"
          unfolding act using new(3) by (rule list_all_remove)
        moreover have ip: "in_process g' = in_process g"
          using qu 2 by (simp add: in_process_def act rem)
        then have "int (successes new) + in_process g' = int (ie_length env)"
          using new(4) by simp
        moreover have "to_check g' \<noteq> 0"
        proof
          assume "to_check g' = 0"
          then have "in_process g' = 0" by (rule to_check_zero)
          then have "successes new = ie_length env" using new(4) ip by simp
          then show False using False by (simp add: update_due_def)
        qed
        ultimately show ?thesis unfolding live_inv_def using r(2,3) a(3) by auto
      qed
    next
      case (3 res')
      have r: "r = Inr Fulfilled" "v_log v' = l0 @ new" "v_batchProcessed v' = successes new"
        using a(2) 3 new(1,2) by (auto simp: tick_def)
      then have act: "g_active g' = take k (g_active g) @ drop (Suc k) (g_active g)"
        using a(5) by auto
      have "list_all (\<lambda>(item, ph). on_success_path ph) (g_active g')"
        unfolding act using new(3) by (rule list_all_remove)
      moreover have "in_process g' = in_process g" "to_check g' = to_check g"
        using qu 3 by (simp_all add: in_process_def to_check_def act rem)
      ultimately show ?thesis unfolding live_inv_def using r(2,3) a(3) new(4,5) by auto
    qed (use path in simp_all)
  qed
qed

lemma run_gate_last_update:
  assumes q: "quiet_env env" and l: "0 < ie_limit env"
    and res: "\<forall>item index s. \<exists>r. ie_process env item index s = Inr r"
    and len: "ie_length env = length qu" "qu \<noteq> []"
  shows "\<exists>v' new. run_gate env \<lparr>g_queue = qu, g_active = [], g_vars = v\<lparr>v_batchProcessed := 0\<rparr>\<rparr> =
           AllSettled v' \<and> v_log v' = v_log v @ new \<and> successes new = length qu \<and>
           last_update_seen (length qu) new"
proof -
  let ?g = "\<lparr>g_queue = qu, g_active = [], g_vars = v\<lparr>v_batchProcessed := 0\<rparr>\<rparr>"
  have "live_inv env (v_log v) ?g"
    unfolding live_inv_def using len
    by (intro exI[of _ "[]"]) (simp add: in_process_def to_check_def)
  then have "\<exists>gf. live_inv env (v_log v) gf \<and> gate_step env gf = run_gate env ?g \<and>
     (\<forall>g'. run_gate env ?g \<noteq> Next g')"
    by (rule run_gate_final) (rule gate_step_live[OF q res])
  then obtain gf where gf: "live_inv env (v_log v) gf" "gate_step env gf = run_gate env ?g"
    by blast
  from run_gate_quiet[OF q disjI1[OF l], of qu "v\<lparr>v_batchProcessed := 0\<rparr>"]
  obtain v' where v': "run_gate env ?g = AllSettled v'" by blast
  then have e: "g_queue gf = []" "g_active gf = []" "v' = g_vars gf"
    using gf(2) by (simp_all add: gate_step_AllSettled)
  from gf(1) obtain new where new: "v_log v' = v_log v @ new"
    "int (successes new) + in_process gf = int (ie_length env)"
    "to_check gf = 0 \<longrightarrow> ie_length env = 0 \<or> last_update_seen (ie_length env) new"
    unfolding live_inv_def e(3) by blast
  have "successes new = length qu" "last_update_seen (length qu) new"
    using new(2,3) e(1,2) len by (simp_all add: in_process_def to_check_def)
  then show ?thesis using v' new(1) by blast
qed

definition sequential_options :: "(nat, nat, nat) BatchOptions" where
  "sequential_options = plain_options\<lparr>concurrencyLimit := Some 1, stateUpdateInterval := Some 2\<rparr>"

definition sequential_paged_options :: "(nat, nat, nat) PaginatedBatchOptions" where
  "sequential_paged_options =
     plain_paged_options\<lparr>p_concurrencyLimit := Some 1, p_stateUpdateInterval := Some 2\<rparr>"

definition sequential_env :: "(nat, nat, nat) item_env" where
  "sequential_env = batch_env sequential_options resolving fifo_world [1, 2, 3] (Fin 1) (Fin 1)"

section \<open>The properties of the specification\<close>

text \<open>
  C6. With an empty \<^verbatim>\<open>items\<close> array \<^verbatim>\<open>processBatches\<close> runs no batch: it makes no
  call at all (the log is empty) and returns at once, with \<^verbatim>\<open>processed\<close> and
  \<^verbatim>\<open>failed\<close> read from \<^verbatim>\<open>initialState\<close> (\<^verbatim>\<open>|| 0\<close>) and with \<^verbatim>\<open>state\<close> a copy of
  \<^verbatim>\<open>initialState\<close>. With \<^verbatim>\<open>initialState = {totalProcessed: 5, totalFailed: 1}\<close> the
  result is \<^verbatim>\<open>{processed: 5, failed: 1}\<close> with that state, whatever the other options.
\<close>

theorem processBatches_empty_items:
  "processBatches [] processFunction options w =
     Some (Returned
       \<lparr>processed = or_default (totalProcessed (with_default empty_State (initialState options))) 0,
        failed = or_default (totalFailed (with_default empty_State (initialState options))) 0,
        state = with_default empty_State (initialState options)\<rparr> [])
   \<and> processBatches [] processFunction
       (options\<lparr>initialState := Some (empty_State\<lparr>totalProcessed := Some 5, totalFailed := Some 1\<rparr>)\<rparr>) w =
     Some (Returned
       \<lparr>processed = 5, failed = 1,
        state = empty_State\<lparr>totalProcessed := Some 5, totalFailed := Some 1\<rparr>\<rparr> [])"
  by (simp add: processBatches_def batches_from_done result_of_def initial_vars_def
        with_default_def or_default_def Let_def)

text \<open>
  C1, as stated, fails: with \<^verbatim>\<open>batchSize\<close> 0 and one item, a process function that
  always succeeds, the default callbacks and no \<^verbatim>\<open>initialState\<close>, \<^verbatim>\<open>processBatches\<close>
  never returns.
\<close>

theorem processBatches_zero_batchSize_counterexample:
  "processBatches [7] resolving zero_size_options fifo_world = None"
proof -
  have "0 < with_default 10 (concurrencyLimit zero_size_options)"
    "with_default 20 (batchSize zero_size_options) = 0"
    by (simp_all add: zero_size_options_def plain_options_def with_default_def)
  then show ?thesis
    unfolding processBatches_start
    by (intro batches_from_zero_size quiet_plain) simp_all
qed

text \<open>
  C1, amended. For every item array and every configuration with a positive
  \<^verbatim>\<open>batchSize\<close>, a positive \<^verbatim>\<open>concurrencyLimit\<close> and callbacks that return normally,
  \<^verbatim>\<open>processBatches\<close> with a process function that always succeeds and an empty
  \<^verbatim>\<open>initialState\<close> returns, under every schedule, a result with \<^verbatim>\<open>processed\<close> equal to
  the number of items and \<^verbatim>\<open>failed\<close> equal to 0.
\<close>

theorem processBatches_all_succeed:
  assumes "0 < with_default 20 (batchSize options)"
    and "0 < with_default 10 (concurrencyLimit options)"
    and "quiet options"
    and "with_default empty_State (initialState options) = empty_State"
    and "\<forall>item index s. \<exists>r. processFunction item index s = Inr r"
  shows "\<exists>r l. processBatches items processFunction options w = Some (Returned r l) \<and>
           processed r = int (length items) \<and> failed r = 0"
proof -
  from processBatches_quiet[OF assms(3,2,1), of items processFunction w]
  obtain r l where rl: "processBatches items processFunction options w = Some (Returned r l)"
    "processed r = or_default (totalProcessed (with_default empty_State (initialState options))) 0
        + int (calls_resolving processFunction l)"
    "failed r = or_default (totalFailed (with_default empty_State (initialState options))) 0
        + int (calls_rejecting processFunction l)"
    "calls_resolving processFunction l + calls_rejecting processFunction l = length items"
    by blast
  have "calls_rejecting processFunction l = 0" by (rule calls_rejecting_none[OF assms(5)])
  then show ?thesis using rl assms(4) by (simp add: empty_State_def or_default_def)
qed

theorem processBatches_all_succeed_witness:
  "0 < with_default 20 (batchSize plain_options) \<and>
   0 < with_default 10 (concurrencyLimit plain_options) \<and>
   quiet plain_options \<and>
   with_default empty_State (initialState plain_options) = empty_State \<and>
   (\<forall>item index s. \<exists>r. resolving item index s = Inr r) \<and>
   (\<exists>r l. processBatches [1, 2, 3] resolving plain_options fifo_world = Some (Returned r l) \<and>
           processed r = 3 \<and> failed r = 0)"
proof -
  have h: "0 < with_default 20 (batchSize plain_options)"
    "0 < with_default 10 (concurrencyLimit plain_options)"
    "with_default empty_State (initialState plain_options) = empty_State"
    "\<forall>item index s. \<exists>r. resolving item index s = Inr r"
    by (simp_all add: plain_options_def with_default_def resolving_def)
  from processBatches_all_succeed[OF h(1,2) quiet_plain(1) h(3,4), of "[1, 2, 3]" fifo_world]
  show ?thesis using h by simp
qed

text \<open>
  C8. The paginated driver stops as soon as \<^verbatim>\<open>currentPage\<close> exceeds \<^verbatim>\<open>totalPages\<close>, and
  a run that has returned has a cursor beyond the last page. With a \<^verbatim>\<open>fetchPage\<close> that
  answers every call with \<^verbatim>\<open>totalPages: 3\<close> and ten items, an empty \<^verbatim>\<open>initialState\<close>
  and the default \<^verbatim>\<open>initialPage\<close>, the pages fetched are exactly 1, 2 and 3 in this
  order, \<^verbatim>\<open>onPageComplete\<close> is called exactly three times (for the pages 1, 2 and 3), and
  the driver returns its result, with \<^verbatim>\<open>currentPage\<close> 4. This holds for every process
  function, schedule and \<^verbatim>\<open>stateUpdateInterval\<close>, with a positive concurrency limit
  (the default is 10) and callbacks that return normally (the defaults do).
\<close>

theorem three_pages_are_fetched:
  assumes "\<forall>p s. \<exists>pageData. fetchPageFunction p s = Inr pageData \<and>
        pd_totalPages pageData = Some 3 \<and> length (page_items pageData) = 10"
    and "with_default empty_State (p_initialState options) = empty_State"
    and "p_initialPage options = None"
    and "0 < with_default 10 (p_concurrencyLimit options)"
    and "quiet_paged options"
  shows "(\<exists>r l. processPaginatedBatches fetchPageFunction processFunction options w = Some (Returned r l) \<and>
            fetched_pages l = [1, 2, 3] \<and> completed_pages l = [1, 2, 3] \<and>
            currentPage (state r) = Some 4 \<and> totalPages (state r) = Some 3)
       \<and> (\<forall>page pages v. pages < page \<longrightarrow>
            pages_from options fetchPageFunction processFunction w page pages v = Some (result_of v))
       \<and> (\<forall>fetch' process' w' r l.
            processPaginatedBatches fetch' process' options w' = Some (Returned r l) \<longrightarrow>
            (\<exists>p n. currentPage (state r) = Some p \<and> totalPages (state r) = Some n \<and> n < p))"
proof (intro conjI allI impI)
  have "or_default (currentPage (with_default empty_State (p_initialState options)))
          (with_default 1 (p_initialPage options)) = 1"
    "or_default (totalPages (with_default empty_State (p_initialState options))) 1 = 1"
    using assms(2,3) by (simp_all add: empty_State_def or_default_def with_default_def)
  from three_pages_run[OF assms(5,4) this assms(1), of processFunction w]
  show "\<exists>r l. processPaginatedBatches fetchPageFunction processFunction options w = Some (Returned r l) \<and>
            fetched_pages l = [1, 2, 3] \<and> completed_pages l = [1, 2, 3] \<and>
            currentPage (state r) = Some 4 \<and> totalPages (state r) = Some 3"
    by blast
next
  fix page pages :: int and v :: "('b, 'c, 'a) vars"
  assume "pages < page"
  then show "pages_from options fetchPageFunction processFunction w page pages v = Some (result_of v)"
    by (intro pages_from_done) simp
next
  fix fetch' process' w' r l
  assume "processPaginatedBatches fetch' process' options w' = Some (Returned r l)"
  from processPaginatedBatches_quiet[OF this assms(5)]
  show "\<exists>p n. currentPage (state r) = Some p \<and> totalPages (state r) = Some n \<and> n < p"
    by blast
qed

theorem three_pages_are_fetched_witness:
  "(\<forall>p s. \<exists>pageData. ten_per_page p s = Inr pageData \<and>
        pd_totalPages pageData = Some 3 \<and> length (page_items pageData) = 10) \<and>
   with_default empty_State (p_initialState plain_paged_options) = empty_State \<and>
   p_initialPage plain_paged_options = None \<and>
   0 < with_default 10 (p_concurrencyLimit plain_paged_options) \<and>
   quiet_paged plain_paged_options \<and>
   (\<exists>r l. processPaginatedBatches ten_per_page odd_rejecting plain_paged_options fifo_world =
            Some (Returned r l) \<and>
          fetched_pages l = [1, 2, 3] \<and> completed_pages l = [1, 2, 3] \<and>
          currentPage (state r) = Some 4 \<and> totalPages (state r) = Some 3)"
  using three_pages_are_fetched[OF ten_per_page_fetch plain_paged_defaults(2,3,1) quiet_paged_plain,
      of odd_rejecting fifo_world]
    ten_per_page_fetch plain_paged_defaults
  by simp

text \<open>
  C9. Every state that a run of either driver hands out (to a callback, to
  \<^verbatim>\<open>processFunction\<close> or \<^verbatim>\<open>fetchPageFunction\<close>; in particular every replaced snapshot, which
  is passed to \<^verbatim>\<open>onStateUpdate\<close>) and the state of the returned result have the
  caller-defined fields of \<^verbatim>\<open>initialState\<close> unchanged, and also \<^verbatim>\<open>startTime\<close> and
  \<^verbatim>\<open>startedAt\<close>; in the array driver \<^verbatim>\<open>currentPage\<close> and \<^verbatim>\<open>totalPages\<close> are unchanged
  too. A snapshot refresh keeps the caller-defined fields.
\<close>

theorem unreserved_fields_are_kept:
  "(processBatches items processFunction options w = Some out \<longrightarrow>
      (\<forall>e s. e \<in> set (log_of out) \<and> event_state e = Some s \<longrightarrow>
          extra s = extra (with_default empty_State (initialState options)) \<and>
          startTime s = startTime (with_default empty_State (initialState options)) \<and>
          startedAt s = startedAt (with_default empty_State (initialState options)) \<and>
          currentPage s = currentPage (with_default empty_State (initialState options)) \<and>
          totalPages s = totalPages (with_default empty_State (initialState options))) \<and>
      (\<forall>r l. out = Returned r l \<longrightarrow>
          extra (state r) = extra (with_default empty_State (initialState options)) \<and>
          startTime (state r) = startTime (with_default empty_State (initialState options)) \<and>
          startedAt (state r) = startedAt (with_default empty_State (initialState options)) \<and>
          currentPage (state r) = currentPage (with_default empty_State (initialState options)) \<and>
          totalPages (state r) = totalPages (with_default empty_State (initialState options))))
   \<and> (processPaginatedBatches fetchPageFunction processFunction' options' w' = Some out' \<longrightarrow>
      (\<forall>e s. e \<in> set (log_of out') \<and> event_state e = Some s \<longrightarrow>
          extra s = extra (with_default empty_State (p_initialState options')) \<and>
          startTime s = startTime (with_default empty_State (p_initialState options')) \<and>
          startedAt s = startedAt (with_default empty_State (p_initialState options'))) \<and>
      (\<forall>r l. out' = Returned r l \<longrightarrow>
          extra (state r) = extra (with_default empty_State (p_initialState options')) \<and>
          startTime (state r) = startTime (with_default empty_State (p_initialState options')) \<and>
          startedAt (state r) = startedAt (with_default empty_State (p_initialState options'))))
   \<and> extra (v_currentState (refresh_state clk v)) = extra (v_currentState v)"
proof (intro conjI impI)
  assume run: "processBatches items processFunction options w = Some out"
  let ?init = "with_default empty_State (initialState options)"
  from run obtain v' where v': "evolves False (array_start options) v'" "ends_in out v'"
    by (rule processBatches_evolves)
  have k: "all_kept False ?init v'"
    using evolves_kept[OF v'(1) array_start_kept] .
  show "\<forall>e s. e \<in> set (log_of out) \<and> event_state e = Some s \<longrightarrow>
          extra s = extra ?init \<and> startTime s = startTime ?init \<and> startedAt s = startedAt ?init \<and>
          currentPage s = currentPage ?init \<and> totalPages s = totalPages ?init"
    using k ends_in_log[OF v'(2)]
    by (auto simp: all_kept_def list_all_iff event_kept_def kept_def)
  show "\<forall>r l. out = Returned r l \<longrightarrow>
          extra (state r) = extra ?init \<and> startTime (state r) = startTime ?init \<and>
          startedAt (state r) = startedAt ?init \<and> currentPage (state r) = currentPage ?init \<and>
          totalPages (state r) = totalPages ?init"
    using k v'(2) by (auto simp: all_kept_def kept_def ends_in_def result_of_def)
next
  assume run: "processPaginatedBatches fetchPageFunction processFunction' options' w' = Some out'"
  let ?init = "with_default empty_State (p_initialState options')"
  from run obtain v' where v': "evolves True (paged_start options') v'" "ends_in out' v'"
    by (rule processPaginatedBatches_evolves)
  have k: "all_kept True ?init v'"
    using evolves_kept[OF v'(1) paged_start_kept] .
  show "\<forall>e s. e \<in> set (log_of out') \<and> event_state e = Some s \<longrightarrow>
          extra s = extra ?init \<and> startTime s = startTime ?init \<and> startedAt s = startedAt ?init"
    using k ends_in_log[OF v'(2)]
    by (auto simp: all_kept_def list_all_iff event_kept_def kept_def)
  show "\<forall>r l. out' = Returned r l \<longrightarrow>
          extra (state r) = extra ?init \<and> startTime (state r) = startTime ?init \<and>
          startedAt (state r) = startedAt ?init"
    using k v'(2) by (auto simp: all_kept_def kept_def ends_in_def result_of_def)
next
  show "extra (v_currentState (refresh_state clk v)) = extra (v_currentState v)"
    by (simp add: refresh_state_def)
qed

theorem unreserved_fields_are_kept_witness:
  "(\<exists>r l. processBatches [1, 2, 3] odd_rejecting job_options fifo_world = Some (Returned r l) \<and>
      extra (state r) ''jobId'' = Some 42 \<and> startTime (state r) = Some 1000)
   \<and> (\<exists>r l. processPaginatedBatches ten_per_page odd_rejecting job_paged_options fifo_world =
        Some (Returned r l) \<and>
      extra (state r) ''jobId'' = Some 42 \<and> startTime (state r) = Some 1000)"
proof -
  from processBatches_quiet[OF job_defaults(1,3,2), of "[1, 2, 3]" odd_rejecting fifo_world]
  obtain r l where run: "processBatches [1, 2, 3] odd_rejecting job_options fifo_world = Some (Returned r l)"
    by blast
  from three_pages_run[OF job_paged_defaults(1,2,4,5) ten_per_page_fetch, of odd_rejecting fifo_world]
  obtain r' l' where run': "processPaginatedBatches ten_per_page odd_rejecting job_paged_options fifo_world =
      Some (Returned r' l')"
    by blast
  note t = unreserved_fields_are_kept[where items = "[1, 2, 3]" and processFunction = odd_rejecting
      and options = job_options and w = fifo_world and out = "Returned r l"
      and fetchPageFunction = ten_per_page and processFunction' = odd_rejecting
      and options' = job_paged_options and w' = fifo_world and out' = "Returned r' l'"
      and clk = "now fifo_world" and v = "array_start plain_options"]
  have "extra (state r) = extra job_state" "startTime (state r) = startTime job_state"
    "extra (state r') = extra job_state" "startTime (state r') = startTime job_state"
    using t run run' job_defaults(4) job_paged_defaults(3) by simp_all
  then show ?thesis
    using run run' by (simp add: job_state_def empty_State_def)
qed

text \<open>
  C4, as stated, fails for a fetched value of 0. With the initial \<^verbatim>\<open>totalPages\<close> of 1 and
  a page that comes with \<^verbatim>\<open>totalPages: 0\<close> and one item, the call that follows the fetch is
  the item's \<^verbatim>\<open>processFunction\<close>, and every state handed out in the run still has
  \<^verbatim>\<open>totalPages\<close> 1: the guard \<^verbatim>\<open>pageData.totalPages && ...\<close> skips a falsy value.
\<close>

theorem totalPages_zero_counterexample:
  "map_option pages_in_log
     (processPaginatedBatches zero_total resolving plain_paged_options fifo_world) =
   Some [(''onPageStart'', Some 1), (''fetchPage'', Some 1), (''process'', Some 1),
         (''onItemSuccess'', Some 1), (''onStateUpdate'', Some 1), (''onStateUpdate'', Some 1),
         (''onPageComplete'', Some 1)]"
  by (simp add: evaluation pages_in_log_def plain_paged_options_def fifo_world_def resolving_def
      zero_total_def)

text \<open>
  C4, amended. In an iteration of the paginated driver whose fetched page has a
  \<^verbatim>\<open>totalPages\<close> that is present, not 0 and different from the driver's current
  \<^verbatim>\<open>totalPages\<close>, the call that follows the fetch is \<^verbatim>\<open>onStateUpdate\<close> with the current
  state updated to the fetched \<^verbatim>\<open>totalPages\<close>; everything else the iteration does (the
  page's items first of all) comes after it, and the iteration does end. The loop goes
  on with the new value, and the state still has it when the page is complete. A fetched
  \<^verbatim>\<open>totalPages\<close> that is absent, 0 or equal to the current value is ignored: no state is
  replaced and no \<^verbatim>\<open>onStateUpdate\<close> is called for it, and the iteration goes from the
  fetch straight to the items of the page, with the \<^verbatim>\<open>totalPages\<close> it had.
\<close>

theorem totalPages_update_is_immediate:
  "(p_onPageStart options page pages (v_currentState v) = None \<and>
    fetchPageFunction page (v_currentState v) = Inr pageData \<and>
    pd_totalPages pageData = Some n \<and> n \<noteq> 0 \<and> n \<noteq> pages \<longrightarrow>
      page_iteration options fetchPageFunction processFunction w page pages v \<noteq> Stuck \<and>
      iter_all (\<lambda>v'. \<exists>rest. v_log v' = v_log v @
             [OnPageStart page pages (v_currentState v),
              FetchPageCall page (v_currentState v),
              OnStateUpdate ((v_currentState v)\<lparr>totalPages := Some n\<rparr>) None None] @ rest)
           (page_iteration options fetchPageFunction processFunction w page pages v) \<and>
      (\<forall>page' pages' v'.
            page_iteration options fetchPageFunction processFunction w page pages v =
              Continue (page', pages') v' \<longrightarrow>
            pages' = n \<and> totalPages (v_currentState v') = Some n))
   \<and> (pd_totalPages pageData0 = None \<or> pd_totalPages pageData0 = Some 0 \<or>
       pd_totalPages pageData0 = Some pages0 \<longrightarrow>
        sync_totalPages options0 pageData0 pages0 v0 k = k pages0 v0)
   \<and> (p_onPageStart options0 page0 pages0 (v_currentState v0) = None \<and>
       fetch0 page0 (v_currentState v0) = Inr pageData0 \<and>
       (pd_totalPages pageData0 = None \<or> pd_totalPages pageData0 = Some 0 \<or>
        pd_totalPages pageData0 = Some pages0) \<longrightarrow>
        page_iteration options0 fetch0 process0 w0 page0 pages0 v0 =
          process_page options0 process0 w0 page0 pageData0 pages0
            (log_event (FetchPageCall page0 (v_currentState v0))
               (log_event (OnPageStart page0 pages0 (v_currentState v0)) v0)))"
proof (intro conjI impI)
  assume a: "p_onPageStart options page pages (v_currentState v) = None \<and>
    fetchPageFunction page (v_currentState v) = Inr pageData \<and>
    pd_totalPages pageData = Some n \<and> n \<noteq> 0 \<and> n \<noteq> pages"
  let ?cs = "v_currentState v"
  let ?v2 = "log_event (FetchPageCall page ?cs) (log_event (OnPageStart page pages ?cs) v)"
  let ?v3 = "?v2\<lparr>v_currentState := ?cs\<lparr>totalPages := Some n\<rparr>\<rparr>"
  let ?e = "OnStateUpdate (?cs\<lparr>totalPages := Some n\<rparr>) None None"
  let ?v4 = "log_event ?e ?v3"
  let ?k = "process_page options processFunction w page pageData n"
  let ?P = "\<lambda>v'. \<exists>rest. v_log v' = v_log v @
             [OnPageStart page pages ?cs, FetchPageCall page ?cs, ?e] @ rest"
  have it: "page_iteration options fetchPageFunction processFunction w page pages v =
      await_call ?e (p_onStateUpdate options (?cs\<lparr>totalPages := Some n\<rparr>)) ?v3 ?k"
    using a
    by (simp add: page_iteration_def await_call_def sync_totalPages_def emit_state_def log_event_def)
  have l4: "v_log ?v4 = v_log v @ [OnPageStart page pages ?cs, FetchPageCall page ?cs, ?e]"
    by (simp add: log_event_def)
  show "page_iteration options fetchPageFunction processFunction w page pages v \<noteq> Stuck"
    by (rule page_iteration_not_Stuck)
  have both: "iter_all ?P (page_iteration options fetchPageFunction processFunction w page pages v) \<and>
      (\<forall>page' pages' v'.
            page_iteration options fetchPageFunction processFunction w page pages v =
              Continue (page', pages') v' \<longrightarrow>
            pages' = n \<and> totalPages (v_currentState v') = Some n)"
  proof (cases "p_onStateUpdate options (?cs\<lparr>totalPages := Some n\<rparr>)")
    case (Some error)
    then have "page_iteration options fetchPageFunction processFunction w page pages v = Abort error ?v4"
      using it by (simp add: await_call_def)
    then show ?thesis using l4 by simp
  next
    case None
    then have eq: "page_iteration options fetchPageFunction processFunction w page pages v = ?k ?v4"
      using it by (simp add: await_call_def)
    have "iter_all (evolves True ?v4) (?k ?v4)"
      by (rule process_page_evolves) simp
    then have "iter_all (\<lambda>v'. \<exists>rest. v_log v' = v_log ?v4 @ rest) (?k ?v4)"
      using evolves_monotone[of True ?v4]
      by (cases "?k ?v4") auto
    then have p: "iter_all ?P (?k ?v4)"
      unfolding l4 by simp
    have b: "pages' = n \<and> totalPages (v_currentState v') = Some n"
      if "?k ?v4 = Continue (page', pages') v'" for page' pages' v'
      using process_page_Continue[OF that] by (simp add: log_event_def)
    show ?thesis unfolding eq using p b by blast
  qed
  from both show "iter_all ?P (page_iteration options fetchPageFunction processFunction w page pages v)"
    by simp
  from both show "\<forall>page' pages' v'.
            page_iteration options fetchPageFunction processFunction w page pages v =
              Continue (page', pages') v' \<longrightarrow>
            pages' = n \<and> totalPages (v_currentState v') = Some n"
    by simp
next
  assume "pd_totalPages pageData0 = None \<or> pd_totalPages pageData0 = Some 0 \<or>
       pd_totalPages pageData0 = Some pages0"
  then show "sync_totalPages options0 pageData0 pages0 v0 k = k pages0 v0"
    by (auto simp: sync_totalPages_def)
next
  assume "p_onPageStart options0 page0 pages0 (v_currentState v0) = None \<and>
       fetch0 page0 (v_currentState v0) = Inr pageData0 \<and>
       (pd_totalPages pageData0 = None \<or> pd_totalPages pageData0 = Some 0 \<or>
        pd_totalPages pageData0 = Some pages0)"
  then show "page_iteration options0 fetch0 process0 w0 page0 pages0 v0 =
          process_page options0 process0 w0 page0 pageData0 pages0
            (log_event (FetchPageCall page0 (v_currentState v0))
               (log_event (OnPageStart page0 pages0 (v_currentState v0)) v0))"
    by (auto simp: page_iteration_def await_call_def sync_totalPages_def log_event_def)
qed

theorem totalPages_update_is_immediate_witness:
  "p_onPageStart plain_paged_options 1 1 (v_currentState (paged_start plain_paged_options)) = None \<and>
   ten_per_page 1 (v_currentState (paged_start plain_paged_options)) =
     Inr \<lparr>pd_items = Some [0, 1, 2, 3, 4, 5, 6, 7, 8, 9], pd_results = None, pd_totalPages = Some 3\<rparr> \<and>
   page_iteration plain_paged_options ten_per_page resolving fifo_world 1 1
     (paged_start plain_paged_options) \<noteq> Stuck \<and>
   iter_all (\<lambda>v'. \<exists>rest. v_log v' =
             [OnPageStart 1 1 (v_currentState (paged_start plain_paged_options)),
              FetchPageCall 1 (v_currentState (paged_start plain_paged_options)),
              OnStateUpdate ((v_currentState (paged_start plain_paged_options))\<lparr>totalPages := Some 3\<rparr>)
                None None] @ rest)
           (page_iteration plain_paged_options ten_per_page resolving fifo_world 1 1
              (paged_start plain_paged_options)) \<and>
   zero_total 1 (v_currentState (paged_start plain_paged_options)) =
     Inr \<lparr>pd_items = Some [7], pd_results = None, pd_totalPages = Some 0\<rparr> \<and>
   sync_totalPages plain_paged_options
     \<lparr>pd_items = Some [7], pd_results = None, pd_totalPages = Some 0\<rparr> 1
     (paged_start plain_paged_options) (Continue :: int \<Rightarrow> _) =
     Continue 1 (paged_start plain_paged_options) \<and>
   page_iteration plain_paged_options zero_total resolving fifo_world 1 1
     (paged_start plain_paged_options) =
     process_page plain_paged_options resolving fifo_world 1
       \<lparr>pd_items = Some [7], pd_results = None, pd_totalPages = Some 0\<rparr> 1
       (log_event (FetchPageCall 1 (v_currentState (paged_start plain_paged_options)))
          (log_event (OnPageStart 1 1 (v_currentState (paged_start plain_paged_options)))
             (paged_start plain_paged_options)))"
proof -
  let ?v = "paged_start plain_paged_options :: (nat, nat, nat) vars"
  have h: "p_onPageStart plain_paged_options 1 1 (v_currentState ?v) = None"
    "ten_per_page 1 (v_currentState ?v) = Inr \<lparr>pd_items = Some [0, 1, 2, 3, 4, 5, 6, 7, 8, 9], pd_results = None, pd_totalPages = Some 3\<rparr>"
    "zero_total 1 (v_currentState ?v) = Inr \<lparr>pd_items = Some [7], pd_results = None, pd_totalPages = Some 0\<rparr>"
    "pd_totalPages (\<lparr>pd_items = Some [0, 1, 2, 3, 4, 5, 6, 7, 8, 9], pd_results = None, pd_totalPages = Some 3\<rparr> :: nat PageData) = Some 3"
    "pd_totalPages (\<lparr>pd_items = Some [7], pd_results = None, pd_totalPages = Some 0\<rparr> :: nat PageData) = Some 0"
    by (simp_all add: plain_paged_options_def ten_per_page_def zero_total_def)
  note t = totalPages_update_is_immediate[where options = plain_paged_options and page = 1
      and pages = 1 and v = ?v and fetchPageFunction = ten_per_page
      and pageData = "\<lparr>pd_items = Some [0, 1, 2, 3, 4, 5, 6, 7, 8, 9], pd_results = None, pd_totalPages = Some 3\<rparr>"
      and n = 3 and processFunction = resolving and w = fifo_world
      and options0 = plain_paged_options and ?page0.0 = 1 and ?pages0.0 = 1 and ?v0.0 = ?v
      and ?fetch0.0 = zero_total and ?pageData0.0 = "\<lparr>pd_items = Some [7], pd_results = None, pd_totalPages = Some 0\<rparr>"
      and ?process0.0 = resolving
      and ?w0.0 = fifo_world and k = "Continue :: int \<Rightarrow> (nat, nat, nat) vars \<Rightarrow> _"]
  have a: "page_iteration plain_paged_options ten_per_page resolving fifo_world 1 1 ?v \<noteq> Stuck"
    "iter_all (\<lambda>v'. \<exists>rest. v_log v' = v_log ?v @
             [OnPageStart 1 1 (v_currentState ?v), FetchPageCall 1 (v_currentState ?v),
              OnStateUpdate ((v_currentState ?v)\<lparr>totalPages := Some 3\<rparr>) None None] @ rest)
           (page_iteration plain_paged_options ten_per_page resolving fifo_world 1 1 ?v)"
  proof -
    have ne: "(3 :: int) \<noteq> 0" "(3 :: int) \<noteq> 1" by simp_all
    from t h(1,2,4) ne
    show "page_iteration plain_paged_options ten_per_page resolving fifo_world 1 1 ?v \<noteq> Stuck"
      by blast
    from t h(1,2,4) ne
    show "iter_all (\<lambda>v'. \<exists>rest. v_log v' = v_log ?v @
             [OnPageStart 1 1 (v_currentState ?v), FetchPageCall 1 (v_currentState ?v),
              OnStateUpdate ((v_currentState ?v)\<lparr>totalPages := Some 3\<rparr>) None None] @ rest)
           (page_iteration plain_paged_options ten_per_page resolving fifo_world 1 1 ?v)"
      by blast
  qed
  have b: "sync_totalPages plain_paged_options \<lparr>pd_items = Some [7], pd_results = None, pd_totalPages = Some 0\<rparr> 1 ?v Continue = Continue 1 ?v"
    using t h(5) by blast
  have c: "page_iteration plain_paged_options zero_total resolving fifo_world 1 1 ?v =
     process_page plain_paged_options resolving fifo_world 1 \<lparr>pd_items = Some [7], pd_results = None, pd_totalPages = Some 0\<rparr> 1
       (log_event (FetchPageCall 1 (v_currentState ?v))
          (log_event (OnPageStart 1 1 (v_currentState ?v)) ?v))"
    using t h(1,3,5) by blast
  show ?thesis using a b c h(1,2,3) by simp
qed

text \<open>
  C2. The sum \<^verbatim>\<open>processed + failed\<close> of the result is not the number of items when a
  success callback throws. \<^verbatim>\<open>await onItemSuccess(...)\<close> is inside the item's \<^verbatim>\<open>try\<close>,
  after \<^verbatim>\<open>totalProcessed++\<close>; when it throws, the \<^verbatim>\<open>catch\<close> runs \<^verbatim>\<open>totalFailed++\<close> and
  calls \<^verbatim>\<open>onItemError\<close> for an item whose processing succeeded. With one item, a
  \<^verbatim>\<open>processFunction\<close> that resolves, no \<^verbatim>\<open>initialState\<close> and an \<^verbatim>\<open>onItemSuccess\<close> that
  throws, \<^verbatim>\<open>processBatches\<close> returns \<^verbatim>\<open>{processed: 1, failed: 1}\<close>, after calling both
  \<^verbatim>\<open>onItemSuccess\<close> and \<^verbatim>\<open>onItemError\<close> for the item: the sum is 2, the number of items
  is 1.
\<close>

theorem processBatches_counts_item_twice:
  "tally (processBatches [7] resolving failing_hook_options fifo_world) = Some (1, 1) \<and>
   call_names (processBatches [7] resolving failing_hook_options fifo_world) =
     Some [''onBatchStart'', ''process'', ''onItemSuccess'', ''onItemError'', ''onStateUpdate'',
           ''onBatchComplete''] \<and>
   initialState failing_hook_options = None \<and> length [7 :: nat] = 1"
  by (simp add: evaluation tally_def call_names_def failing_hook_options_def plain_options_def
        fifo_world_def resolving_def)



text \<open>
  C7. \<^verbatim>\<open>pLimit(concurrencyLimit)\<close> is created once per batch (per page) and every item
  task is submitted through it. In every gate that a run of the items passes through
  (\<^verbatim>\<open>gate_reaches\<close>, under every schedule and whatever the tasks do), the number of
  tasks that have been started and are not yet settled is at most the limit, and the
  tasks started so far, in the order of their \<^verbatim>\<open>processFunction\<close> calls, followed by the
  tasks still queued, are the submitted tasks in the order of submission: admission is
  first in, first out. A run of the items goes only through such gates, and the limit
  of both drivers is \<^verbatim>\<open>concurrencyLimit\<close> (default 10).
\<close>

theorem gate_bounds_running_tasks:
  "(gate_reaches env \<lparr>g_queue = q, g_active = [], g_vars = v\<rparr> g \<longrightarrow>
      length (g_active g) \<le> ie_limit env \<and>
      (\<exists>new. v_log (g_vars g) = v_log v @ new \<and> admitted new @ g_queue g = q))
   \<and> (\<exists>gf. gate_reaches env g0 gf \<and> gate_step env gf = run_gate env g0)
   \<and> ie_limit (batch_env options processFunction w batch bn tb) =
        with_default 10 (concurrencyLimit options)
   \<and> ie_limit (page_env options' processFunction' w' items) =
        with_default 10 (p_concurrencyLimit options')"
proof (intro conjI impI)
  assume "gate_reaches env \<lparr>g_queue = q, g_active = [], g_vars = v\<rparr> g"
  from gate_reaches_bound[OF this]
  show "length (g_active g) \<le> ie_limit env"
    "\<exists>new. v_log (g_vars g) = v_log v @ new \<and> admitted new @ g_queue g = q"
    by simp_all
next
  show "\<exists>gf. gate_reaches env g0 gf \<and> gate_step env gf = run_gate env g0"
    by (rule run_gate_reaches)
qed simp_all

theorem gate_bounds_running_tasks_witness:
  "gate_reaches plain_env
     \<lparr>g_queue = [(0, 7), (1, 8)], g_active = [], g_vars = array_start plain_options\<rparr>
     (admit plain_env (tick \<lparr>g_queue = [(0, 7), (1, 8)], g_active = [],
        g_vars = array_start plain_options\<rparr>)) \<and>
   length (g_active (admit plain_env (tick \<lparr>g_queue = [(0, 7), (1, 8)], g_active = [],
        g_vars = array_start plain_options\<rparr>))) \<le> ie_limit plain_env \<and>
   g_queue (admit plain_env (tick \<lparr>g_queue = [(0, 7), (1, 8)], g_active = [],
        g_vars = array_start plain_options\<rparr>)) = [(1, 8)] \<and>
   ie_limit plain_env = 10"
proof -
  let ?g0 = "\<lparr>g_queue = [(0, 7), (1, 8)], g_active = [],
      g_vars = array_start plain_options\<rparr> :: (nat, nat, nat) gate"
  let ?g1 = "admit plain_env (tick ?g0)"
  have lim: "ie_limit plain_env = 10"
    by (simp add: plain_env_def plain_options_def with_default_def)
  have "gate_step plain_env ?g0 = Next ?g1"
    by (simp add: gate_step_def can_admit_def Let_def plain_env_def batch_env_def
          fifo_world_def array_start_def initial_vars_def plain_options_def with_default_def)
  then have r: "gate_reaches plain_env ?g0 ?g1"
    using gate_reaches_step[of plain_env ?g0 ?g0 ?g1] by simp
  from gate_bounds_running_tasks[where env = plain_env and q = "[(0, 7), (1, 8)]"
      and v = "array_start plain_options" and g = ?g1 and ?g0.0 = ?g0
      and options = plain_options and processFunction = rejecting and w = fifo_world
      and batch = "[7]" and bn = "Fin 1" and tb = "Fin 1"
      and options' = plain_paged_options and processFunction' = rejecting and w' = fifo_world
      and items = "[7]"] r
  have "length (g_active ?g1) \<le> ie_limit plain_env" by blast
  moreover have "g_queue ?g1 = [(1, 8)]" by (simp add: admit_def tick_def Let_def)
  ultimately show ?thesis using r lim by blast
qed

end
